theory Spec2Isabelle
  imports Main "HOL-Library.Sublist"
begin

section \<open>The lexer of pongo2 (lexer.go)\<close>

text \<open>
  A Go \<open>string\<close> is a sequence of bytes; it is modelled by \<open>string\<close> (a list of 8-bit
  \<open>char\<close>s). A \<open>rune\<close> (Go: \<open>int32\<close>) is an \<open>int\<close>. Offsets into the input, widths,
  lines and columns are Go \<open>int\<close>s that are never negative in the lexer and bounded by
  the length of the input; they are modelled by \<open>nat\<close>.
\<close>

type_synonym rune = int

subsection \<open>The constant block\<close>

text \<open>
  \<open>type TokenType int\<close> with the constants of the \<open>iota\<close> block. \<open>EOF\<close> is the second
  constant of that block, so its value is 1; the lexer returns it as a rune.
\<close>

type_synonym TokenType = int

definition TokenError :: TokenType where "TokenError = 0"
definition EOF :: int where "EOF = 1"
definition TokenHTML :: TokenType where "TokenHTML = 2"
definition TokenKeyword :: TokenType where "TokenKeyword = 3"
definition TokenIdentifier :: TokenType where "TokenIdentifier = 4"
definition TokenString :: TokenType where "TokenString = 5"
definition TokenNumber :: TokenType where "TokenNumber = 6"
definition TokenSymbol :: TokenType where "TokenSymbol = 7"

lemmas TokenType_defs =
  TokenError_def TokenHTML_def TokenKeyword_def TokenIdentifier_def
  TokenString_def TokenNumber_def TokenSymbol_def

definition tokenSpaceChars :: string where
  "tokenSpaceChars = [CHR '' '', CHR 0x0A, CHR 0x0D, CHR 0x09]"

definition tokenIdentifierChars :: string where
  "tokenIdentifierChars = ''abcdefghijklmnopqrstuvwxyzABCDEFGHIJKLMNOPQRSTUVWXYZ_''"

definition tokenDigits :: string where
  "tokenDigits = ''0123456789''"

definition quoteChars :: string where
  "quoteChars = [CHR 0x22]"

definition tokenSymbols :: "string list" where
  "tokenSymbols =
    [''=='', ''>='', ''<='', ''&&'', ''||'', ''{{'', ''}}'', ''{%'', ''%}'', ''!='', ''<>'',
     ''('', '')'', ''+'', ''-'', ''*'', ''<'', ''>'', ''/'', ''^'', '','', ''.'', ''!'', ''|'',
     '':'', ''='']"

definition tokenKeywords :: "string list" where
  "tokenKeywords = [''in'', ''and'', ''or'', ''not'', ''true'', ''false'']"

subsection \<open>Tokens and the lexer state\<close>

record Token =
  Typ :: TokenType
  Val :: string
  Line :: nat
  Col :: nat

record lexer =
  name :: string
  input :: string
  start :: nat
  pos :: nat
  width :: nat
  tokens :: "Token list"
  errored :: bool
  startline :: nat
  startcol :: nat
  line :: nat
  col :: nat

datatype lexerStateFn = StateCode | StateIdentifier | StateNumber | StateString

subsection \<open>Functions of the Go standard library\<close>

text \<open>
  \<open>utf8.DecodeRuneInString\<close>: the first rune of a string and the number of bytes it
  takes; \<open>(RuneError, 0)\<close> for the empty string and \<open>(RuneError, 1)\<close> for a byte
  sequence that is not a valid encoding. The acceptance ranges of the second byte are
  those of the library's table (\<open>E0\<close>: \<open>A0..BF\<close>, \<open>ED\<close>: \<open>80..9F\<close>, \<open>F0\<close>: \<open>90..BF\<close>,
  \<open>F4\<close>: \<open>80..8F\<close>, otherwise \<open>80..BF\<close>).
\<close>

definition RuneError :: rune where "RuneError = 0xFFFD"

text \<open>The masks of the library: \<open>b & mask2\<close>, \<open>b & mask3\<close>, \<open>b & mask4\<close>, \<open>b & maskx\<close>.\<close>

definition mask2 :: "nat \<Rightarrow> nat" where "mask2 b = b mod 32"
definition mask3 :: "nat \<Rightarrow> nat" where "mask3 b = b mod 16"
definition mask4 :: "nat \<Rightarrow> nat" where "mask4 b = b mod 8"
definition maskx :: "nat \<Rightarrow> nat" where "maskx b = b mod 64"

fun DecodeRuneInString :: "string \<Rightarrow> rune \<times> nat" where
  "DecodeRuneInString [] = (RuneError, 0)"
| "DecodeRuneInString (c0 # cs) =
    (let s0 = (of_char c0 :: nat) in
     if s0 < 0x80 then (int s0, 1)
     else if s0 < 0xC2 \<or> 0xF4 < s0 then (RuneError, 1)
     else
       let sz = (if s0 < 0xE0 then 2 else if s0 < 0xF0 then 3 else 4 :: nat);
           lo = (if s0 = 0xE0 then 0xA0 else if s0 = 0xF0 then 0x90 else 0x80 :: nat);
           hi = (if s0 = 0xED then 0x9F else if s0 = 0xF4 then 0x8F else 0xBF :: nat)
       in
         if length (c0 # cs) < sz then (RuneError, 1)
         else
           let s1 = (of_char (cs ! 0) :: nat) in
           if s1 < lo \<or> hi < s1 then (RuneError, 1)
           else if sz \<le> 2 then (int (mask2 s0 * 64 + maskx s1), 2)
           else
             let s2 = (of_char (cs ! 1) :: nat) in
             if s2 < 0x80 \<or> 0xBF < s2 then (RuneError, 1)
             else if sz \<le> 3 then
               (int (mask3 s0 * 4096 + maskx s1 * 64 + maskx s2), 3)
             else
               let s3 = (of_char (cs ! 2) :: nat) in
               if s3 < 0x80 \<or> 0xBF < s3 then (RuneError, 1)
               else
                 (int (mask4 s0 * 262144 + maskx s1 * 4096 + maskx s2 * 64 + maskx s3), 4))"

text \<open>
  \<open>strings.IndexRune(what, r) >= 0\<close>. Every \<open>what\<close> the lexer passes is a string of
  ASCII characters: a rune below \<open>0x80\<close> is looked up as a byte, and no other rune
  occurs in such a string.
\<close>

definition IndexRune_ge0 :: "string \<Rightarrow> rune \<Rightarrow> bool" where
  "IndexRune_ge0 what r \<longleftrightarrow> r < 0x80 \<and> (\<exists>c \<in> set what. of_char c = r)"

text \<open>\<open>strings.HasPrefix(s, p)\<close>.\<close>

definition HasPrefix :: "string \<Rightarrow> string \<Rightarrow> bool" where
  "HasPrefix s p \<longleftrightarrow> prefix p s"

text \<open>The verb \<open>%d\<close> of \<open>fmt.Sprintf\<close>: decimal digits, with a minus sign below zero.\<close>

fun fmt_nat :: "nat \<Rightarrow> string" where
  "fmt_nat n =
    (if n < 10 then [''0123456789'' ! n]
     else fmt_nat (n div 10) @ [''0123456789'' ! (n mod 10)])"

declare fmt_nat.simps [simp del]

definition fmt_d :: "int \<Rightarrow> string" where
  "fmt_d i = (if i < 0 then CHR ''-'' # fmt_nat (nat (- i)) else fmt_nat (nat i))"

subsection \<open>The methods of the lexer\<close>

text \<open>
  \<open>l.input[l.start:l.pos]\<close>. A Go slice expression panics when its bounds are out of
  range. The bounds \<open>start \<le> pos \<le> len(input)\<close> are part of the invariant \<open>good\<close> below,
  which every state function and loop keeps from the initial state of \<open>lex\<close> on (lemmas
  \<open>stateCode_good\<close> to \<open>run_good\<close>); \<open>take\<close> and \<open>drop\<close> are the slice there. \<open>backup\<close> is
  called after \<open>next\<close> only, which has just added \<open>width\<close> to \<open>pos\<close>.
\<close>

definition l_value :: "lexer \<Rightarrow> string" where
  "l_value l = take (pos l - start l) (drop (start l) (input l))"

definition emit :: "TokenType \<Rightarrow> lexer \<Rightarrow> lexer" where
  "emit t l =
    l\<lparr>tokens := tokens l @ [\<lparr>Typ = t, Val = l_value l, Line = startline l, Col = startcol l\<rparr>],
      start := pos l, startline := line l, startcol := col l\<rparr>"

definition l_next :: "lexer \<Rightarrow> rune \<times> lexer" where
  "l_next l =
    (if pos l \<ge> length (input l) then (EOF, l\<lparr>width := 0\<rparr>)
     else
       (case DecodeRuneInString (drop (pos l) (input l)) of
          (r, w) \<Rightarrow> (r, l\<lparr>width := w, pos := pos l + w\<rparr>)))"

definition backup :: "lexer \<Rightarrow> lexer" where
  "backup l = l\<lparr>pos := pos l - width l\<rparr>"

definition peek :: "lexer \<Rightarrow> rune \<times> lexer" where
  "peek l = (case l_next l of (r, l') \<Rightarrow> (r, backup l'))"

definition ignore :: "lexer \<Rightarrow> lexer" where
  "ignore l = l\<lparr>start := pos l\<rparr>"

definition accept :: "string \<Rightarrow> lexer \<Rightarrow> bool \<times> lexer" where
  "accept what l =
    (case l_next l of (r, l') \<Rightarrow>
       if IndexRune_ge0 what r then (True, l') else (False, backup l'))"

text \<open>
  \<open>acceptRun\<close> is the loop \<open>for strings.IndexRune(what, l.next()) >= 0 {}\<close>. At the end of
  the input \<open>next\<close> returns \<open>EOF\<close> without advancing, so the loop would never end for a
  \<open>what\<close> that contains the byte 1: \<open>None\<close> is "does not return".
\<close>

partial_function (option) acceptRun :: "string \<Rightarrow> lexer \<Rightarrow> lexer option" where
  "acceptRun what l =
    (case l_next l of (r, l') \<Rightarrow>
       if IndexRune_ge0 what r then acceptRun what l' else Some (backup l'))"

declare acceptRun.simps [code]

text \<open>
  \<open>errorf\<close> takes the message already formatted: the formats of the three fixed messages
  have no verb.
\<close>

definition errorf :: "string \<Rightarrow> lexer \<Rightarrow> lexer" where
  "errorf msg l =
    l\<lparr>tokens := tokens l @ [\<lparr>Typ = TokenError, Val = msg, Line = startline l, Col = startcol l\<rparr>],
      errored := True, startline := line l, startcol := col l\<rparr>"

subsection \<open>Reading one rune\<close>

lemma decode_width:
  "s \<noteq> [] \<Longrightarrow> 1 \<le> snd (DecodeRuneInString s) \<and> snd (DecodeRuneInString s) \<le> length s"
  by (cases s) (auto simp: Let_def Suc_le_eq split: if_splits)

lemma mod_window: "k * m \<le> (x::nat) \<Longrightarrow> x < k * m + m \<Longrightarrow> x mod m = x - k * m"
  by (metis add.commute le_add_diff_inverse mod_less mod_mult_self1 nat_add_left_cancel_less)

lemma mask2_ge: "194 \<le> x \<Longrightarrow> x < 224 \<Longrightarrow> 2 \<le> mask2 x"
  using mod_window[of 6 32 x] by (simp add: mask2_def)

lemma mask3_ge: "224 < x \<Longrightarrow> x < 240 \<Longrightarrow> 1 \<le> mask3 x"
  using mod_window[of 14 16 x] by (simp add: mask3_def)

lemma mask4_ge: "240 < x \<Longrightarrow> x < 248 \<Longrightarrow> 1 \<le> mask4 x"
  using mod_window[of 30 8 x] by (simp add: mask4_def)

lemma maskx_ge32: "160 \<le> x \<Longrightarrow> x \<le> 191 \<Longrightarrow> 32 \<le> maskx x"
  using mod_window[of 2 64 x] by (simp add: maskx_def)

lemma maskx_ge16: "144 \<le> x \<Longrightarrow> x \<le> 191 \<Longrightarrow> 16 \<le> maskx x"
  using mod_window[of 2 64 x] by (simp add: maskx_def)

text \<open>A byte of \<open>0x80\<close> or more never decodes to a rune below \<open>0x80\<close>.\<close>

lemma decode_high_byte:
  assumes "\<not> (of_char c :: nat) < 0x80"
  shows "0x80 \<le> fst (DecodeRuneInString (c # cs))"
proof -
  let ?s0 = "of_char c :: nat"
  let ?s1 = "of_char (cs ! 0) :: nat"
  consider (a) "?s0 < 194 \<or> 244 < ?s0" | (b) "194 \<le> ?s0" "?s0 < 224"
    | (c) "?s0 = 224" | (c') "224 < ?s0" "?s0 < 240" | (d) "?s0 = 240"
    | (d') "240 < ?s0" "?s0 \<le> 244"
    by linarith
  then show ?thesis
  proof cases
    case a
    then show ?thesis using assms by (auto simp: RuneError_def)
  next
    case b
    then show ?thesis using assms mask2_ge[of ?s0]
      by (auto simp add: Let_def RuneError_def simp del: of_nat_add of_nat_mult)
  next
    case c
    then show ?thesis using maskx_ge32[of ?s1]
      by (auto simp add: Let_def RuneError_def simp del: of_nat_add of_nat_mult)
  next
    case c'
    then show ?thesis using mask3_ge[of ?s0]
      by (auto simp add: Let_def RuneError_def simp del: of_nat_add of_nat_mult)
  next
    case d
    then show ?thesis using maskx_ge16[of ?s1]
      by (auto simp add: Let_def RuneError_def simp del: of_nat_add of_nat_mult)
  next
    case d'
    then show ?thesis using mask4_ge[of ?s0]
      by (auto simp add: Let_def RuneError_def simp del: of_nat_add of_nat_mult)
  qed
qed

text \<open>
  What \<open>next\<close> reads at offset \<open>p\<close> of \<open>s\<close>: the rune and its width. It depends on the
  input and the offset only, and \<open>next\<close>, \<open>peek\<close> and \<open>accept\<close> are record updates
  with it.
\<close>

definition rune_at :: "string \<Rightarrow> nat \<Rightarrow> rune \<times> nat" where
  "rune_at s p = (if length s \<le> p then (EOF, 0) else DecodeRuneInString (drop p s))"

lemma l_next_eq:
  "l_next l = (fst (rune_at (input l) (pos l)),
     l\<lparr>width := snd (rune_at (input l) (pos l)), pos := pos l + snd (rune_at (input l) (pos l))\<rparr>)"
  by (simp add: l_next_def rune_at_def split: prod.splits)

lemma peek_eq:
  "peek l = (fst (rune_at (input l) (pos l)), l\<lparr>width := snd (rune_at (input l) (pos l))\<rparr>)"
  by (simp add: peek_def l_next_eq backup_def)

lemma accept_eq:
  "accept what l =
    (if IndexRune_ge0 what (fst (rune_at (input l) (pos l)))
     then (True, l\<lparr>width := snd (rune_at (input l) (pos l)),
                    pos := pos l + snd (rune_at (input l) (pos l))\<rparr>)
     else (False, l\<lparr>width := snd (rune_at (input l) (pos l))\<rparr>))"
  by (simp add: accept_def l_next_eq backup_def)

lemma rune_at_end: "length s \<le> p \<Longrightarrow> rune_at s p = (EOF, 0)"
  by (simp add: rune_at_def)

lemma rune_at_width:
  "p < length s \<Longrightarrow> 1 \<le> snd (rune_at s p) \<and> p + snd (rune_at s p) \<le> length s"
  using decode_width[of "drop p s"] by (auto simp: rune_at_def)

lemma rune_at_not_EOF: "fst (rune_at s p) \<noteq> EOF \<Longrightarrow> p < length s"
  by (rule ccontr) (simp add: rune_at_def)

lemma rune_at_progress:
  "fst (rune_at s p) \<noteq> EOF \<Longrightarrow> length s - (p + snd (rune_at s p)) < length s - p"
  using rune_at_width[of p s] rune_at_not_EOF[of s p] by linarith

text \<open>A rune below \<open>0x80\<close> that is not the end of the input is the byte at the offset.\<close>

lemma rune_at_ascii:
  assumes "p < length s" and "fst (rune_at s p) < 0x80"
  shows "rune_at s p = (of_char (s ! p), 1)" and "(of_char (s ! p) :: nat) < 0x80"
proof -
  have d: "drop p s = s ! p # drop (Suc p) s"
    using assms(1) by (simp add: Cons_nth_drop_Suc)
  have r: "rune_at s p = DecodeRuneInString (s ! p # drop (Suc p) s)"
    using assms(1) d by (simp add: rune_at_def)
  show lt: "(of_char (s ! p) :: nat) < 0x80"
    using decode_high_byte[of "s ! p" "drop (Suc p) s"] assms(2) r by fastforce
  show "rune_at s p = (of_char (s ! p), 1)"
    using lt r by (simp add: of_nat_of_char)
qed

lemma rune_at_byte:
  "p < length s \<Longrightarrow> (of_char (s ! p) :: nat) < 0x80 \<Longrightarrow> rune_at s p = (of_char (s ! p), 1)"
  by (simp add: rune_at_def Cons_nth_drop_Suc [symmetric] of_nat_of_char)

subsection \<open>Runs of characters\<close>

lemma of_char_eq_1: "(of_char c :: int) = 1 \<longleftrightarrow> c = CHR 0x01"
proof -
  have "(of_char (CHR 0x01) :: int) = 1" by simp
  then show ?thesis by (metis of_char_eq_iff)
qed

lemma of_char_int_less: "((of_char c :: int) < 0x80) = ((of_char c :: nat) < 0x80)"
proof -
  have "(of_char c :: int) = int (of_char c)" by (simp add: of_nat_of_char)
  then show ?thesis by simp
qed

text \<open>
  The character sets the lexer passes to \<open>accept\<close> and \<open>acceptRun\<close> are ASCII and do not
  contain the byte 1. On such a set \<open>acceptRun\<close> returns, having consumed the longest run
  of bytes of the set (\<open>run_len\<close>).
\<close>

definition ascii_set :: "string \<Rightarrow> bool" where
  "ascii_set what \<longleftrightarrow> (\<forall>c \<in> set what. (of_char c :: nat) < 0x80 \<and> c \<noteq> CHR 0x01)"

lemma IndexRune_ge0_end: "ascii_set what \<Longrightarrow> length s \<le> p \<Longrightarrow> \<not> IndexRune_ge0 what (fst (rune_at s p))"
  unfolding IndexRune_ge0_def ascii_set_def by (simp add: rune_at_end EOF_def of_char_eq_1)

lemma IndexRune_ge0_byte:
  assumes "p < length s"
  shows "IndexRune_ge0 what (fst (rune_at s p)) \<Longrightarrow> s ! p \<in> set what \<and> rune_at s p = (of_char (s ! p), 1)"
    and "ascii_set what \<Longrightarrow> s ! p \<in> set what \<Longrightarrow> IndexRune_ge0 what (fst (rune_at s p))"
proof -
  show "s ! p \<in> set what \<and> rune_at s p = (of_char (s ! p), 1)" if "IndexRune_ge0 what (fst (rune_at s p))"
  proof -
    from that have lt: "fst (rune_at s p) < 0x80" by (simp add: IndexRune_ge0_def)
    note r = rune_at_ascii [OF assms lt]
    from that obtain c where "c \<in> set what" "of_char c = fst (rune_at s p)"
      unfolding IndexRune_ge0_def by blast
    then have "c = s ! p" using r(1) by simp
    with \<open>c \<in> set what\<close> r(1) show ?thesis by simp
  qed
  show "IndexRune_ge0 what (fst (rune_at s p))" if "ascii_set what" "s ! p \<in> set what"
  proof -
    from that have lt: "(of_char (s ! p) :: nat) < 0x80" unfolding ascii_set_def by blast
    then have "(of_char (s ! p) :: int) < 0x80" by (simp only: of_char_int_less)
    moreover have "fst (rune_at s p) = of_char (s ! p)"
      using rune_at_byte [OF assms lt] by simp
    ultimately show ?thesis
      unfolding IndexRune_ge0_def using that(2) by auto
  qed
qed

definition run_len :: "string \<Rightarrow> string \<Rightarrow> nat \<Rightarrow> nat" where
  "run_len what s p = length (takeWhile (\<lambda>c. c \<in> set what) (drop p s))"

lemma run_len_end: "length s \<le> p \<Longrightarrow> run_len what s p = 0"
  by (simp add: run_len_def)

lemma run_len_in: "p < length s \<Longrightarrow> s ! p \<in> set what \<Longrightarrow> run_len what s p = Suc (run_len what s (Suc p))"
  by (simp add: run_len_def Cons_nth_drop_Suc [symmetric])

lemma run_len_out: "p < length s \<Longrightarrow> s ! p \<notin> set what \<Longrightarrow> run_len what s p = 0"
  by (simp add: run_len_def Cons_nth_drop_Suc [symmetric])

lemma acceptRun_ascii:
  assumes "ascii_set what"
  shows "acceptRun what l =
    Some (l\<lparr>width := snd (rune_at (input l) (pos l + run_len what (input l) (pos l))),
            pos := pos l + run_len what (input l) (pos l)\<rparr>)"
proof (induction "length (input l) - pos l" arbitrary: l rule: less_induct)
  case less
  consider (e) "length (input l) \<le> pos l"
    | (i) "pos l < length (input l)" "input l ! pos l \<in> set what"
    | (o) "pos l < length (input l)" "input l ! pos l \<notin> set what"
    by linarith
  then show ?case
  proof cases
    case e
    have "acceptRun what l = Some (l\<lparr>width := 0\<rparr>)"
      using IndexRune_ge0_end [OF assms e] e
      by (subst acceptRun.simps) (simp add: l_next_eq backup_def rune_at_end)
    then show ?thesis using e by (simp add: run_len_end rune_at_end)
  next
    case i
    have ir: "IndexRune_ge0 what (fst (rune_at (input l) (pos l)))"
      using IndexRune_ge0_byte(2) [OF i(1) assms i(2)] .
    have r: "snd (rune_at (input l) (pos l)) = 1"
      using IndexRune_ge0_byte(1) [OF i(1) ir] by simp
    have "acceptRun what l = acceptRun what (l\<lparr>width := 1, pos := pos l + 1\<rparr>)"
      using ir r by (subst acceptRun.simps) (simp add: l_next_eq)
    also have "\<dots> = Some (l\<lparr>width := snd (rune_at (input l) (pos l + 1 + run_len what (input l) (pos l + 1))),
            pos := pos l + 1 + run_len what (input l) (pos l + 1)\<rparr>)"
      using less [of "l\<lparr>width := 1, pos := pos l + 1\<rparr>"] i(1) by simp
    finally show ?thesis
      using run_len_in [OF i] by simp
  next
    case o
    have ir: "\<not> IndexRune_ge0 what (fst (rune_at (input l) (pos l)))"
      using IndexRune_ge0_byte(1) [OF o(1)] o(2) by blast
    have "acceptRun what l = Some (l\<lparr>width := snd (rune_at (input l) (pos l))\<rparr>)"
      using ir by (subst acceptRun.simps) (simp add: l_next_eq backup_def)
    then show ?thesis using run_len_out [OF o] by simp
  qed
qed

subsection \<open>Scanning a string literal\<close>

text \<open>
  The loop \<open>for !l.accept(`"`) { if l.next() == EOF { return l.errorf(...) } }\<close> of
  \<open>stateString\<close>: \<open>True\<close> when the closing quote was accepted, \<open>False\<close> when the loop
  returned through \<open>errorf\<close>.
\<close>

function string_loop :: "lexer \<Rightarrow> bool \<times> lexer" where
  "string_loop l =
    (case accept quoteChars l of
       (True, l1) \<Rightarrow> (True, l1)
     | (False, l1) \<Rightarrow>
         (case l_next l1 of (r, l2) \<Rightarrow>
            if r = EOF then (False, errorf ''Unexpected EOF, string not closed.'' l2)
            else string_loop l2))"
  by pat_completeness auto
termination
  apply (relation "measure (\<lambda>l. length (input l) - pos l)")
   apply simp
  subgoal for l x1 l1 r l2
    by (auto simp: accept_eq l_next_eq rune_at_progress split: if_splits)
  done

declare string_loop.simps [simp del]

definition stateString :: "lexer \<Rightarrow> lexerStateFn option \<times> lexer" where
  "stateString l =
    (case string_loop (ignore l) of
       (False, l1) \<Rightarrow> (None, l1)
     | (True, l1) \<Rightarrow>
         (let l2 = backup l1;
              l3 = l2\<lparr>col := col l2 + length (l_value l2)\<rparr>;
              l4 = emit TokenString l3;
              l5 = snd (l_next l4)
          in (Some StateCode, ignore l5)))"

lemma string_loop_frame:
  "string_loop l = (b, l') \<Longrightarrow>
     input l' = input l \<and> pos l \<le> pos l' \<and> (b \<longrightarrow> pos l \<le> pos l' - width l' \<and> width l' \<le> pos l')"
proof (induction l arbitrary: b l' rule: string_loop.induct)
  case (1 l)
  show ?case
  proof (cases "IndexRune_ge0 quoteChars (fst (rune_at (input l) (pos l)))")
    case True
    with 1(2) show ?thesis
      by (subst (asm) string_loop.simps) (auto simp: accept_eq)
  next
    case False
    show ?thesis
    proof (cases "fst (rune_at (input l) (pos l)) = EOF")
      case True
      with False 1(2) show ?thesis
        by (subst (asm) string_loop.simps) (auto simp: accept_eq l_next_eq errorf_def)
    next
      case ne: False
      let ?l1 = "l\<lparr>width := snd (rune_at (input l) (pos l))\<rparr>"
      let ?l2 = "l\<lparr>width := snd (rune_at (input l) (pos l)), pos := pos l + snd (rune_at (input l) (pos l))\<rparr>"
      have a: "(False, ?l1) = accept quoteChars l" using False by (simp add: accept_eq)
      have n: "(fst (rune_at (input l) (pos l)), ?l2) = l_next ?l1" by (simp add: l_next_eq)
      have "string_loop ?l2 = (b, l')"
        using 1(2) False ne by (subst (asm) string_loop.simps) (simp add: accept_eq l_next_eq)
      from 1(1) [OF a _ n ne this] show ?thesis by auto
    qed
  qed
qed

lemma stateString_frame:
  "stateString l = (st, l') \<Longrightarrow> (st = None \<or> st = Some StateCode) \<and> input l' = input l \<and> pos l \<le> pos l'"
  unfolding stateString_def
  by (auto split: prod.splits bool.splits simp: Let_def l_next_eq emit_def ignore_def backup_def
      dest!: string_loop_frame)

subsection \<open>Identifiers, keywords and numbers\<close>

text \<open>The loop over \<open>tokenKeywords\<close> in \<open>stateIdentifier\<close>: is some keyword equal to the value?\<close>

primrec keyword_loop :: "string list \<Rightarrow> string \<Rightarrow> bool" where
  "keyword_loop [] v = False"
| "keyword_loop (kw # kws) v = (if kw = v then True else keyword_loop kws v)"

definition stateIdentifier :: "lexer \<Rightarrow> (lexerStateFn option \<times> lexer) option" where
  "stateIdentifier l =
    (case acceptRun tokenIdentifierChars l of
       None \<Rightarrow> None
     | Some l1 \<Rightarrow>
         (case acceptRun tokenDigits l1 of
            None \<Rightarrow> None
          | Some l2 \<Rightarrow>
              if keyword_loop tokenKeywords (l_value l2)
              then Some (Some StateCode, emit TokenKeyword l2)
              else Some (Some StateCode,
                         emit TokenIdentifier (l2\<lparr>col := col l2 + length (l_value l2)\<rparr>))))"

definition stateNumber :: "lexer \<Rightarrow> (lexerStateFn option \<times> lexer) option" where
  "stateNumber l =
    (case acceptRun tokenDigits l of
       None \<Rightarrow> None
     | Some l1 \<Rightarrow>
         Some (Some StateCode, emit TokenNumber (l1\<lparr>col := col l1 + length (l_value l1)\<rparr>)))"

lemma ascii_set_identifier: "ascii_set tokenIdentifierChars"
  by (simp add: ascii_set_def tokenIdentifierChars_def)

lemma ascii_set_digits: "ascii_set tokenDigits"
  by (simp add: ascii_set_def tokenDigits_def)

lemma stateIdentifier_eq:
  "stateIdentifier l =
    (let p1 = pos l + run_len tokenIdentifierChars (input l) (pos l);
         p2 = p1 + run_len tokenDigits (input l) p1;
         l2 = l\<lparr>width := snd (rune_at (input l) p2), pos := p2\<rparr>
     in Some (Some StateCode,
          if keyword_loop tokenKeywords (l_value l2) then emit TokenKeyword l2
          else emit TokenIdentifier (l2\<lparr>col := col l2 + length (l_value l2)\<rparr>)))"
  by (simp add: stateIdentifier_def acceptRun_ascii [OF ascii_set_identifier]
      acceptRun_ascii [OF ascii_set_digits] Let_def)

lemma stateNumber_eq:
  "stateNumber l =
    (let p1 = pos l + run_len tokenDigits (input l) (pos l);
         l1 = l\<lparr>width := snd (rune_at (input l) p1), pos := p1\<rparr>
     in Some (Some StateCode, emit TokenNumber (l1\<lparr>col := col l1 + length (l_value l1)\<rparr>)))"
  by (simp add: stateNumber_def acceptRun_ascii [OF ascii_set_digits] Let_def)

lemma stateIdentifier_frame:
  "stateIdentifier l = Some (st, l') \<Longrightarrow> st = Some StateCode \<and> input l' = input l \<and> pos l \<le> pos l'"
  by (auto simp: stateIdentifier_eq Let_def emit_def split: if_splits)

lemma stateNumber_frame:
  "stateNumber l = Some (st, l') \<Longrightarrow> st = Some StateCode \<and> input l' = input l \<and> pos l \<le> pos l'"
  by (auto simp: stateNumber_eq Let_def emit_def split: if_splits)

subsection \<open>Code mode\<close>

text \<open>
  The loop \<open>for _, sym := range tokenSymbols\<close> of \<open>stateCode\<close>: the first symbol that is
  a prefix of \<open>l.input[l.start:]\<close> is consumed and emitted.
\<close>

primrec symbol_loop :: "string list \<Rightarrow> lexer \<Rightarrow> (string \<times> lexer) option" where
  "symbol_loop [] l = None"
| "symbol_loop (sy # syms) l =
    (if HasPrefix (drop (start l) (input l)) sy
     then Some (sy, emit TokenSymbol (l\<lparr>pos := pos l + length sy, col := col l + length sy\<rparr>))
     else symbol_loop syms l)"

lemma symbol_loop_Some:
  "symbol_loop syms l = Some (sy, l') \<Longrightarrow>
     sy \<in> set syms \<and> HasPrefix (drop (start l) (input l)) sy \<and>
     l' = emit TokenSymbol (l\<lparr>pos := pos l + length sy, col := col l + length sy\<rparr>)"
  by (induction syms) (auto split: if_splits)

lemma tokenSymbols_length: "sy \<in> set tokenSymbols \<Longrightarrow> 1 \<le> length sy \<and> length sy \<le> 2"
  by (auto simp: tokenSymbols_def)

lemma HasPrefix_drop_less: "HasPrefix (drop p s) sy \<Longrightarrow> sy \<noteq> [] \<Longrightarrow> p < length s"
  by (rule ccontr) (simp add: HasPrefix_def)

lemma space_not_EOF: "IndexRune_ge0 tokenSpaceChars r \<Longrightarrow> r \<noteq> EOF"
  by (auto simp: IndexRune_ge0_def tokenSpaceChars_def EOF_def)

text \<open>
  \<open>stateCode\<close>. The verb \<open>%q\<close> of \<open>fmt.Sprintf\<close> (a quoted character literal, which
  depends on the Unicode tables) is the parameter \<open>fmt_q\<close>; it is used in the message of
  the unknown-character error only. The cases of the \<open>switch\<close> are tried in order, each
  \<open>accept\<close> leaving its width behind.
\<close>

function stateCode :: "(rune \<Rightarrow> string) \<Rightarrow> lexer \<Rightarrow> lexerStateFn option \<times> lexer" where
  "stateCode fmt_q l =
    (case accept tokenSpaceChars l of
       (True, l1) \<Rightarrow>
         stateCode fmt_q
           (ignore (if l_value l1 = [CHR 0x0A] then l1\<lparr>line := line l1 + 1, col := 1\<rparr>
                    else l1\<lparr>col := col l1 + 1\<rparr>))
     | (False, l1) \<Rightarrow>
     (case accept tokenIdentifierChars l1 of
       (True, l2) \<Rightarrow> (Some StateIdentifier, l2)
     | (False, l2) \<Rightarrow>
     (case accept tokenDigits l2 of
       (True, l3) \<Rightarrow> (Some StateNumber, l3)
     | (False, l3) \<Rightarrow>
     (case accept quoteChars l3 of
       (True, l4) \<Rightarrow> (Some StateString, l4)
     | (False, l4) \<Rightarrow>
     (case symbol_loop tokenSymbols l4 of
       Some (sy, l5) \<Rightarrow>
         if sy = ''%}'' \<or> sy = ''}}'' then (None, l5) else stateCode fmt_q l5
     | None \<Rightarrow>
         if pos l4 < length (input l4) then
           (case peek l4 of (r1, l5) \<Rightarrow>
            case peek l5 of (r2, l6) \<Rightarrow>
              (None, errorf (''Unknown character: '' @ fmt_q r1 @ '' ('' @ fmt_d r2 @ '')'') l6))
         else (None, l4))))))"
  by pat_completeness auto
termination
  apply (relation "measures [\<lambda>(q, l). length (input l) - pos l, \<lambda>(q, l). length (input l) - start l]")
    apply simp
  subgoal for fmt_q l x1 l1
    by (auto simp: accept_eq ignore_def rune_at_progress space_not_EOF split: if_splits)
  subgoal premises prems for fmt_q l x1 l1 x2 l2 x3 l3 x4 l4 x5 sy l5
  proof -
    have l4: "l4 = l\<lparr>width := snd (rune_at (input l) (pos l))\<rparr>"
      using prems(1-8) by (auto simp: accept_eq split: if_splits)
    have "symbol_loop tokenSymbols l4 = Some (sy, l5)"
      using prems(9,10) by simp
    note sl = symbol_loop_Some [OF this]
    have len: "1 \<le> length sy" using sl tokenSymbols_length by blast
    then have "sy \<noteq> []" by auto
    then have st: "start l < length (input l)"
      using sl l4 HasPrefix_drop_less [of "start l" "input l" sy] by auto
    show ?thesis
      using sl l4 len st by (auto simp: emit_def)
  qed
  done

declare stateCode.simps [simp del]

lemma ascii_set_space: "ascii_set tokenSpaceChars"
  by (simp add: ascii_set_def tokenSpaceChars_def)

lemma ascii_set_quote: "ascii_set quoteChars"
  by (simp add: ascii_set_def quoteChars_def)

lemma IndexRune_ge0_not_EOF:
  assumes "ascii_set what" and "IndexRune_ge0 what r"
  shows "r \<noteq> EOF"
proof
  assume "r = EOF"
  with assms(2) obtain c where c: "c \<in> set what" "(of_char c :: int) = 1"
    unfolding IndexRune_ge0_def EOF_def by blast
  from c(2) have "c = CHR 0x01" by (simp only: of_char_eq_1)
  with c(1) assms(1) show False unfolding ascii_set_def by blast
qed

lemmas accept_not_EOF =
  IndexRune_ge0_not_EOF [OF ascii_set_space] IndexRune_ge0_not_EOF [OF ascii_set_identifier]
  IndexRune_ge0_not_EOF [OF ascii_set_digits] IndexRune_ge0_not_EOF [OF ascii_set_quote]

text \<open>One iteration of the loop of \<open>stateCode\<close>, by the rune at the current offset.\<close>

lemma stateCode_unfold:
  "stateCode fmt_q l =
    (let r = fst (rune_at (input l) (pos l)); w = snd (rune_at (input l) (pos l));
         lw = l\<lparr>width := w\<rparr>; la = l\<lparr>width := w, pos := pos l + w\<rparr>
     in if IndexRune_ge0 tokenSpaceChars r then
          stateCode fmt_q
            (ignore (if l_value la = [CHR 0x0A] then la\<lparr>line := line l + 1, col := 1\<rparr>
                     else la\<lparr>col := col l + 1\<rparr>))
        else if IndexRune_ge0 tokenIdentifierChars r then (Some StateIdentifier, la)
        else if IndexRune_ge0 tokenDigits r then (Some StateNumber, la)
        else if IndexRune_ge0 quoteChars r then (Some StateString, la)
        else
          (case symbol_loop tokenSymbols lw of
             Some (sy, l5) \<Rightarrow>
               if sy = ''%}'' \<or> sy = ''}}'' then (None, l5) else stateCode fmt_q l5
           | None \<Rightarrow>
               if pos l < length (input l) then
                 (None, errorf (''Unknown character: '' @ fmt_q r @ '' ('' @ fmt_d r @ '')'') lw)
               else (None, lw)))"
proof -
  let ?r = "fst (rune_at (input l) (pos l))"
  consider (sp) "IndexRune_ge0 tokenSpaceChars ?r"
    | (id) "\<not> IndexRune_ge0 tokenSpaceChars ?r" "IndexRune_ge0 tokenIdentifierChars ?r"
    | (dg) "\<not> IndexRune_ge0 tokenSpaceChars ?r" "\<not> IndexRune_ge0 tokenIdentifierChars ?r"
        "IndexRune_ge0 tokenDigits ?r"
    | (qt) "\<not> IndexRune_ge0 tokenSpaceChars ?r" "\<not> IndexRune_ge0 tokenIdentifierChars ?r"
        "\<not> IndexRune_ge0 tokenDigits ?r" "IndexRune_ge0 quoteChars ?r"
    | (sy) "\<not> IndexRune_ge0 tokenSpaceChars ?r" "\<not> IndexRune_ge0 tokenIdentifierChars ?r"
        "\<not> IndexRune_ge0 tokenDigits ?r" "\<not> IndexRune_ge0 quoteChars ?r"
    by blast
  then show ?thesis
  proof cases
    case sp
    then show ?thesis
      by (subst stateCode.simps) (simp add: accept_eq Let_def cong: if_cong split del: if_split)
  next
    case id
    then show ?thesis
      by (subst stateCode.simps) (simp add: accept_eq Let_def split del: if_split)
  next
    case dg
    then show ?thesis
      by (subst stateCode.simps) (simp add: accept_eq Let_def split del: if_split)
  next
    case qt
    then show ?thesis
      by (subst stateCode.simps) (simp add: accept_eq Let_def split del: if_split)
  next
    case sy
    then show ?thesis
      by (subst stateCode.simps)
        (simp add: accept_eq peek_eq Let_def split del: if_split cong: if_cong option.case_cong)
  qed
qed

lemma stateCode_frame:
  "stateCode fmt_q l = (st, l') \<Longrightarrow>
     input l' = input l \<and> pos l \<le> pos l' \<and>
     (st \<noteq> None \<longrightarrow> length (input l) - pos l' < length (input l) - pos l)"
proof (induction fmt_q l arbitrary: st l' rule: stateCode.induct)
  case (1 fmt_q l)
  let ?r = "fst (rune_at (input l) (pos l))"
  let ?w = "snd (rune_at (input l) (pos l))"
  let ?lw = "l\<lparr>width := ?w\<rparr>"
  let ?la = "l\<lparr>width := ?w, pos := pos l + ?w\<rparr>"
  note u = 1(3) [unfolded stateCode_unfold [of fmt_q l] Let_def]
  show ?case
  proof (cases "IndexRune_ge0 tokenSpaceChars ?r")
    case True
    let ?l1 = "ignore (if l_value ?la = [CHR 0x0A] then ?la\<lparr>line := line ?la + 1, col := 1\<rparr>
                    else ?la\<lparr>col := col ?la + 1\<rparr>)"
    have a: "(True, ?la) = accept tokenSpaceChars l" using True by (simp add: accept_eq)
    have "stateCode fmt_q ?l1 = (st, l')" using u True by (simp cong: if_cong split del: if_split)
    note ih = 1(1) [OF a refl this]
    have p: "pos ?l1 = pos l + ?w" "input ?l1 = input l" by (simp_all add: ignore_def)
    from ih rune_at_progress [OF accept_not_EOF(1) [OF True]]
    show ?thesis unfolding p by linarith
  next
    case sp: False
    show ?thesis
    proof (cases "IndexRune_ge0 tokenIdentifierChars ?r \<or> IndexRune_ge0 tokenDigits ?r \<or> IndexRune_ge0 quoteChars ?r")
      case True
      then have "?r \<noteq> EOF" using accept_not_EOF by blast
      note pr = rune_at_progress [OF this]
      from u sp True have "l' = ?la" by (simp split: if_splits)
      with pr show ?thesis by simp
    next
      case False
      then have ni: "\<not> IndexRune_ge0 tokenIdentifierChars ?r" "\<not> IndexRune_ge0 tokenDigits ?r"
        "\<not> IndexRune_ge0 quoteChars ?r" by auto
      note u' = u [simplified sp ni if_False]
      show ?thesis
      proof (cases "symbol_loop tokenSymbols ?lw")
        case None
        with u' have "st = None \<and> (l' = ?lw \<or> l' = errorf (''Unknown character: '' @ fmt_q ?r @ '' ('' @ fmt_d ?r @ '')'') ?lw)"
          by (simp split: if_splits)
        then show ?thesis by (auto simp: errorf_def)
      next
        case (Some x)
        obtain sy l5 where x: "x = (sy, l5)" by (cases x)
        note sl = symbol_loop_Some [OF Some [unfolded x]]
        then have l5: "input l5 = input l" "pos l5 = pos l + length sy" by (simp_all add: emit_def)
        show ?thesis
        proof (cases "sy = ''%}'' \<or> sy = ''}}''")
          case True
          with u' Some x have "st = None \<and> l' = l5" by auto
          with l5 show ?thesis by simp
        next
          case nc: False
          have a1: "(False, ?lw) = accept tokenSpaceChars l" using sp by (simp add: accept_eq)
          have a2: "(False, ?lw) = accept tokenIdentifierChars ?lw" using ni by (simp add: accept_eq)
          have a3: "(False, ?lw) = accept tokenDigits ?lw" using ni by (simp add: accept_eq)
          have a4: "(False, ?lw) = accept quoteChars ?lw" using ni by (simp add: accept_eq)
          have "stateCode fmt_q l5 = (st, l')" using u' Some x nc by simp
          from 1(2) [OF a1 refl a2 refl a3 refl a4 refl Some x [symmetric] nc this]
          show ?thesis unfolding l5 by linarith
        qed
      qed
    qed
  qed
qed

text \<open>
  \<open>tokenize\<close> runs the state functions until one returns \<open>nil\<close>. A state function is one of
  the four methods; \<open>run_state\<close> calls it.
\<close>

definition run_state ::
  "(rune \<Rightarrow> string) \<Rightarrow> lexerStateFn \<Rightarrow> lexer \<Rightarrow> (lexerStateFn option \<times> lexer) option" where
  "run_state fmt_q s l =
    (case s of
       StateCode \<Rightarrow> Some (stateCode fmt_q l)
     | StateIdentifier \<Rightarrow> stateIdentifier l
     | StateNumber \<Rightarrow> stateNumber l
     | StateString \<Rightarrow> Some (stateString l))"

lemma run_state_frame:
  assumes "run_state fmt_q s l = Some (st, l')"
  shows "input l' = input l" and "pos l \<le> pos l'"
    and "s = StateCode \<Longrightarrow> st \<noteq> None \<Longrightarrow> length (input l) - pos l' < length (input l) - pos l"
    and "s \<noteq> StateCode \<Longrightarrow> st = None \<or> st = Some StateCode"
  using assms stateCode_frame [of fmt_q l st l'] stateIdentifier_frame [of l st l']
    stateNumber_frame [of l st l'] stateString_frame [of l st l']
  by (cases s; simp add: run_state_def)+

function tokenize_loop ::
  "(rune \<Rightarrow> string) \<Rightarrow> lexerStateFn \<Rightarrow> lexer \<Rightarrow> lexer option" where
  "tokenize_loop fmt_q s l =
    (case run_state fmt_q s l of
       None \<Rightarrow> None
     | Some (None, l') \<Rightarrow> Some l'
     | Some (Some s', l') \<Rightarrow> tokenize_loop fmt_q s' l')"
  by pat_completeness auto
termination
proof (relation "measure (\<lambda>(q, s, l). 2 * (length (input l) - pos l) + (if s = StateCode then 0 else 1))")
  show "wf (measure (\<lambda>(q, s, l). 2 * (length (input l) - pos l) + (if s = StateCode then 0 else 1)))"
    by simp
next
  fix fmt_q s l x2 st l' s'
  assume "run_state fmt_q s l = Some x2" "(st, l') = x2" "st = Some s'"
  then have r: "run_state fmt_q s l = Some (Some s', l')" by simp
  note f = run_state_frame [OF r]
  show "((fmt_q, s', l'), fmt_q, s, l)
    \<in> measure (\<lambda>(q, s, l). 2 * (length (input l) - pos l) + (if s = StateCode then 0 else 1))"
  proof (cases "s = StateCode")
    case True
    with f(1,3) show ?thesis by auto
  next
    case False
    with f(1,2,4) show ?thesis by auto
  qed
qed

declare tokenize_loop.simps [simp del]

definition tokenize :: "(rune \<Rightarrow> string) \<Rightarrow> lexer \<Rightarrow> lexer option" where
  "tokenize fmt_q l = tokenize_loop fmt_q StateCode l"

lemma tokenize_loop_frame:
  "tokenize_loop fmt_q s l = Some l' \<Longrightarrow> input l' = input l \<and> pos l \<le> pos l'"
proof (induction fmt_q s l rule: tokenize_loop.induct)
  case (1 fmt_q s l)
  from 1(2) obtain st l1 where r: "run_state fmt_q s l = Some (st, l1)"
    by (subst (asm) tokenize_loop.simps) (auto split: option.splits)
  note f = run_state_frame(1,2) [OF r]
  show ?case
  proof (cases st)
    case None
    with 1(2) r have "l' = l1" by (subst (asm) tokenize_loop.simps) simp
    with f show ?thesis by simp
  next
    case (Some s')
    with 1(2) r have "tokenize_loop fmt_q s' l1 = Some l'"
      by (subst (asm) tokenize_loop.simps) simp
    from 1(1) [OF r refl Some this] f show ?thesis by simp
  qed
qed

text \<open>The rune at an offset where the input has an ASCII byte.\<close>

lemma HasPrefix_Cons_byte:
  "HasPrefix (drop p s) (c # cs) \<Longrightarrow> p < length s \<and> s ! p = c"
  by (cases "p < length s") (auto simp: HasPrefix_def Cons_nth_drop_Suc [symmetric])

lemma rune_at_brace:
  assumes "p < length s" and "s ! p = CHR ''{''"
  shows "rune_at s p = (123, 1)"
  using rune_at_byte [OF assms(1)] assms(2) by simp

lemma not_accept_brace:
  "\<not> IndexRune_ge0 tokenSpaceChars 123" "\<not> IndexRune_ge0 tokenIdentifierChars 123"
  "\<not> IndexRune_ge0 tokenDigits 123" "\<not> IndexRune_ge0 quoteChars 123"
  by (simp_all add: IndexRune_ge0_def tokenSpaceChars_def tokenIdentifierChars_def
      tokenDigits_def quoteChars_def)

lemma stateCode_brace:
  assumes "pos l < length (input l)" and "input l ! pos l = CHR ''{''"
    and "stateCode fmt_q l = (st, l')"
  shows "pos l < pos l' \<or> errored l'"
proof -
  let ?lw = "l\<lparr>width := 1\<rparr>"
  note r = rune_at_brace [OF assms(1,2)]
  note u = assms(3) [unfolded stateCode_unfold [of fmt_q l] Let_def r fst_conv snd_conv,
      simplified not_accept_brace if_False]
  show ?thesis
  proof (cases "symbol_loop tokenSymbols ?lw")
    case None
    with u assms(1) have "l' = errorf (''Unknown character: '' @ fmt_q 123 @ '' ('' @ fmt_d 123 @ '')'') ?lw"
      by simp
    then show ?thesis by (simp add: errorf_def)
  next
    case (Some x)
    obtain sy l5 where x: "x = (sy, l5)" by (cases x)
    note sl = symbol_loop_Some [OF Some [unfolded x]]
    have "1 \<le> length sy" using sl tokenSymbols_length by blast
    moreover have "pos l5 = pos l + length sy" using sl by (simp add: emit_def)
    ultimately have l5: "pos l < pos l5" by linarith
    show ?thesis
    proof (cases "sy = ''%}'' \<or> sy = ''}}''")
      case True
      with u Some x have "l' = l5" by auto
      with l5 show ?thesis by simp
    next
      case False
      with u Some x have "stateCode fmt_q l5 = (st, l')" by simp
      from stateCode_frame [OF this] l5 show ?thesis by simp
    qed
  qed
qed

lemma tokenize_progress:
  assumes "pos l < length (input l)" and "input l ! pos l = CHR ''{''"
    and "tokenize fmt_q l = Some l'"
  shows "input l' = input l" and "pos l < pos l' \<or> errored l'"
proof -
  show "input l' = input l"
    using assms(3) tokenize_loop_frame unfolding tokenize_def by blast
  obtain st l1 where s: "stateCode fmt_q l = (st, l1)" by (cases "stateCode fmt_q l")
  note b = stateCode_brace [OF assms(1,2) s]
  show "pos l < pos l' \<or> errored l'"
  proof (cases st)
    case None
    with assms(3) s have "l' = l1"
      unfolding tokenize_def by (subst (asm) tokenize_loop.simps) (simp add: run_state_def)
    with b show ?thesis by simp
  next
    case (Some s')
    with assms(3) s have t: "tokenize_loop fmt_q s' l1 = Some l'"
      unfolding tokenize_def by (subst (asm) tokenize_loop.simps) (simp add: run_state_def)
    have "pos l < pos l1" using stateCode_frame [OF s] Some assms(1) by auto
    with tokenize_loop_frame [OF t] show ?thesis by simp
  qed
qed

subsection \<open>Text mode\<close>

text \<open>
  The inner loop of \<open>run\<close> that skips a comment, entered after \<open>{#\<close> has been passed:
  \<open>True\<close> when \<open>#}\<close> was passed (\<open>break\<close>), \<open>False\<close> when \<open>run\<close> returns after \<open>errorf\<close>.
\<close>

function comment_loop :: "lexer \<Rightarrow> bool \<times> lexer" where
  "comment_loop l =
    (case peek l of (r, l1) \<Rightarrow>
       if r = EOF then (False, errorf ''Single-line comment not closed.'' l1)
       else if r = 0x0A then
         (False, errorf ''Newline not permitted in a single-line comment.'' l1)
       else if HasPrefix (drop (pos l1) (input l1)) ''#}'' then
         (True, l1\<lparr>pos := pos l1 + 2, col := col l1 + 2\<rparr>)
       else comment_loop (l1\<lparr>pos := pos l1 + 1, col := col l1 + 1\<rparr>))"
  by pat_completeness auto
termination
  apply (relation "measure (\<lambda>l. length (input l) - pos l)")
   apply simp
  subgoal for l r l1
    using rune_at_not_EOF [of "input l" "pos l"] by (auto simp: peek_eq)
  done

declare comment_loop.simps [simp del]

lemma comment_loop_frame:
  "comment_loop l = (b, l') \<Longrightarrow> input l' = input l \<and> pos l \<le> pos l'"
proof (induction l rule: comment_loop.induct)
  case (1 l)
  let ?r = "fst (rune_at (input l) (pos l))"
  let ?lw = "l\<lparr>width := snd (rune_at (input l) (pos l))\<rparr>"
  show ?case
  proof (cases "?r = EOF \<or> ?r = 0x0A \<or> HasPrefix (drop (pos l) (input l)) ''#}''")
    case True
    with 1(2) show ?thesis
      by (subst (asm) comment_loop.simps) (auto simp: peek_eq errorf_def split: if_splits)
  next
    case False
    have p: "(?r, ?lw) = peek l" by (simp add: peek_eq)
    from False 1(2) have "comment_loop (?lw\<lparr>pos := pos ?lw + 1, col := col ?lw + 1\<rparr>) = (b, l')"
      by (subst (asm) comment_loop.simps) (simp add: peek_eq)
    from 1(1) [OF p _ _ _ this] False show ?thesis by simp
  qed
qed

text \<open>
  \<open>run\<close>: the loop of text mode. A \<open>return\<close> inside the loop ends \<open>run\<close> at once; the
  \<open>break\<close> at the end of the input leaves the loop for the final
  \<open>if l.pos > l.start { l.emit(TokenHTML) }\<close>. \<open>None\<close> is "does not return".
\<close>

function run :: "(rune \<Rightarrow> string) \<Rightarrow> lexer \<Rightarrow> lexer option" where
  "run fmt_q l =
    (if HasPrefix (drop (pos l) (input l)) ''{#'' then
       (let l1 = (if pos l > start l then emit TokenHTML l else l) in
        case comment_loop (l1\<lparr>pos := pos l1 + 2, col := col l1 + 2\<rparr>) of
          (False, l2) \<Rightarrow> Some l2
        | (True, l2) \<Rightarrow> run fmt_q (ignore l2))
     else if HasPrefix (drop (pos l) (input l)) ''{{'' \<or>
             HasPrefix (drop (pos l) (input l)) ''{%'' then
       (let l1 = (if pos l > start l then emit TokenHTML l else l) in
        case tokenize fmt_q l1 of
          None \<Rightarrow> None
        | Some l2 \<Rightarrow> if errored l2 then Some l2 else run fmt_q l2)
     else
       (case peek l of (r, l1) \<Rightarrow>
          let l2 = (if r = 0x0A then l1\<lparr>line := line l1 + 1, col := 1\<rparr>
                    else l1\<lparr>col := col l1 + 1\<rparr>)
          in case l_next l2 of (r', l3) \<Rightarrow>
               if r' = EOF then Some (if pos l3 > start l3 then emit TokenHTML l3 else l3)
               else run fmt_q l3))"
  by pat_completeness auto
termination
proof (relation "measure (\<lambda>(q, l). length (input l) - pos l)", goal_cases)
  case 1
  show ?case by simp
next
  case (2 fmt_q l l1 b l2)
  from 2(1) have lt: "pos l + 2 \<le> length (input l)"
    by (cases "pos l + 2 \<le> length (input l)") (auto simp: HasPrefix_def dest!: prefix_length_le)
  have l1: "input l1 = input l" "pos l1 = pos l" using 2(2) by (auto simp: emit_def)
  from comment_loop_frame [OF 2(3) [symmetric]] l1 lt show ?case
    by (auto simp: ignore_def)
next
  case (3 fmt_q l l1 l2)
  from 3(2) have b: "pos l < length (input l)" "input l ! pos l = CHR ''{''"
    using HasPrefix_Cons_byte by blast+
  have l1: "input l1 = input l" "pos l1 = pos l" using 3(3) by (auto simp: emit_def)
  from tokenize_progress [OF _ _ 3(4)] b l1 3(5) show ?case by auto
next
  case (4 fmt_q l r l1 l2 r' l3)
  then show ?case
    using rune_at_progress [of "input l" "pos l"]
    by (auto simp: peek_eq l_next_eq split: if_splits)
qed

declare run.simps [simp del]

text \<open>
  \<open>lex\<close>. The error of Go is the string \<open>errors.New\<close> wraps. \<open>l.tokens[len(l.tokens)-1]\<close>
  panics on an empty list; that branch is \<open>None\<close> as well.
\<close>

definition lex :: "(rune \<Rightarrow> string) \<Rightarrow> string \<Rightarrow> string \<Rightarrow> (string + Token list) option" where
  "lex fmt_q nm inp =
    (case run fmt_q \<lparr>name = nm, input = inp, start = 0, pos = 0, width = 0, tokens = [],
                      errored = False, startline = 1, startcol = 1, line = 1, col = 1\<rparr> of
       None \<Rightarrow> None
     | Some l \<Rightarrow>
         if errored l then
           (case tokens l of
              [] \<Rightarrow> None
            | _ # _ \<Rightarrow>
                (let errtoken = last (tokens l) in
                 Some (Inl (''[Lexer Error in '' @ nm @ '' (Line '' @ fmt_d (int (Line errtoken))
                            @ '' Col '' @ fmt_d (int (Col errtoken)) @ '')]: '' @ Val errtoken))))
         else Some (Inr (tokens l)))"

subsection \<open>The end of the input in code mode, and the byte 1\<close>

lemma symbol_loop_end:
  "length (input l) \<le> start l \<Longrightarrow> symbol_loop tokenSymbols l = None"
  by (simp add: tokenSymbols_def HasPrefix_def)

lemma stateCode_end:
  assumes "start l = pos l" and "pos l = length (input l)"
  shows "stateCode fmt_q l = (None, l\<lparr>width := 0\<rparr>)"
proof -
  have r: "rune_at (input l) (length (input l)) = (EOF, 0)" by (simp add: rune_at_end)
  have n: "\<not> IndexRune_ge0 tokenSpaceChars EOF" "\<not> IndexRune_ge0 tokenIdentifierChars EOF"
    "\<not> IndexRune_ge0 tokenDigits EOF" "\<not> IndexRune_ge0 quoteChars EOF"
    using accept_not_EOF by blast+
  have s: "symbol_loop tokenSymbols (l\<lparr>width := 0\<rparr>) = None"
    using assms by (simp add: symbol_loop_end)
  show ?thesis
    by (subst stateCode_unfold) (simp add: r n s assms(2) Let_def)
qed

lemma tokenize_end:
  assumes "start l = pos l" and "pos l = length (input l)"
  shows "tokenize fmt_q l = Some (l\<lparr>width := 0\<rparr>)"
  unfolding tokenize_def
  by (subst tokenize_loop.simps) (simp add: run_state_def stateCode_end [OF assms])

lemma run_end:
  assumes "start l = pos l" and "pos l = length (input l)"
  shows "run fmt_q l = Some (l\<lparr>width := 0, col := col l + 1\<rparr>)"
  using assms
  by (subst run.simps) (simp add: HasPrefix_def peek_eq l_next_eq rune_at_end EOF_def)

text \<open>The byte 1 in text mode and in a string.\<close>

lemma rune_at_byte1:
  assumes "p < length s" and "s ! p = CHR 0x01"
  shows "rune_at s p = (EOF, 1)"
  using rune_at_byte [OF assms(1)] assms(2) by (simp add: EOF_def)

lemma HasPrefix_byte1:
  assumes "p < length s" and "s ! p = CHR 0x01"
  shows "\<not> HasPrefix (drop p s) (CHR ''{'' # cs)"
  using HasPrefix_Cons_byte [of p s "CHR ''{''" cs] assms by auto

lemma run_byte1:
  assumes "pos l < length (input l)" and "input l ! pos l = CHR 0x01" and "start l \<le> pos l"
  shows "run fmt_q l = Some (emit TokenHTML (l\<lparr>width := 1, pos := pos l + 1, col := col l + 1\<rparr>))"
  using assms(3)
  apply (subst run.simps)
  apply (simp add: HasPrefix_byte1 [OF assms(1,2)] peek_eq l_next_eq rune_at_byte1 [OF assms(1,2)] EOF_def)
  apply (cases l, simp)
  done

lemma string_loop_byte1:
  assumes "pos l < length (input l)" and "input l ! pos l = CHR 0x01"
  shows "string_loop l =
    (False, errorf ''Unexpected EOF, string not closed.'' (l\<lparr>width := 1, pos := pos l + 1\<rparr>))"
  using accept_not_EOF(4)
  by (subst string_loop.simps)
    (auto simp add: accept_eq l_next_eq rune_at_byte1 [OF assms])

subsection \<open>A string literal without a closing quote\<close>

lemma set_drop_mono: "x \<notin> set (drop p s) \<Longrightarrow> x \<notin> set (drop (p + w) s)"
  by (metis add.commute drop_drop in_set_dropD)

lemma string_loop_no_quote:
  "string_loop l = (b, l') \<Longrightarrow> CHR 0x22 \<notin> set (drop (pos l) (input l)) \<Longrightarrow>
     \<not> b \<and> errored l' \<and>
     tokens l' = tokens l @ [\<lparr>Typ = TokenError, Val = ''Unexpected EOF, string not closed.'',
                               Line = startline l, Col = startcol l\<rparr>]"
proof (induction l rule: string_loop.induct)
  case (1 l)
  let ?r = "fst (rune_at (input l) (pos l))"
  let ?w = "snd (rune_at (input l) (pos l))"
  let ?lw = "l\<lparr>width := ?w\<rparr>"
  let ?l2 = "l\<lparr>width := ?w, pos := pos l + ?w\<rparr>"
  have na: "\<not> IndexRune_ge0 quoteChars ?r"
  proof
    assume i: "IndexRune_ge0 quoteChars ?r"
    then have lt: "pos l < length (input l)"
      using accept_not_EOF(4) rune_at_not_EOF by blast
    from IndexRune_ge0_byte(1) [OF lt i] have "input l ! pos l = CHR 0x22"
      by (simp add: quoteChars_def)
    then have "CHR 0x22 \<in> set (drop (pos l) (input l))"
      using lt by (metis Cons_nth_drop_Suc list.set_intros(1))
    with 1(3) show False by simp
  qed
  show ?case
  proof (cases "?r = EOF")
    case True
    with na 1(2) show ?thesis
      by (subst (asm) string_loop.simps) (auto simp: accept_eq l_next_eq errorf_def)
  next
    case False
    have a: "(False, ?lw) = accept quoteChars l" using na by (simp add: accept_eq)
    have n: "(?r, ?l2) = l_next ?lw" by (simp add: l_next_eq)
    have s: "string_loop ?l2 = (b, l')"
      using 1(2) na False by (subst (asm) string_loop.simps) (simp add: accept_eq l_next_eq)
    have q: "CHR 0x22 \<notin> set (drop (pos ?l2) (input ?l2))"
      using set_drop_mono [OF 1(3)] by simp
    from 1(1) [OF a _ n False s q] show ?thesis by simp
  qed
qed

lemma stateString_no_quote:
  assumes "CHR 0x22 \<notin> set (drop (pos l) (input l))"
  shows "\<exists>l'. stateString l = (None, l') \<and> errored l' \<and>
     tokens l' = tokens l @ [\<lparr>Typ = TokenError, Val = ''Unexpected EOF, string not closed.'',
                               Line = startline l, Col = startcol l\<rparr>]"
proof -
  obtain b l' where s: "string_loop (ignore l) = (b, l')" by (cases "string_loop (ignore l)")
  have "CHR 0x22 \<notin> set (drop (pos (ignore l)) (input (ignore l)))"
    using assms by (simp add: ignore_def)
  from string_loop_no_quote [OF s this] have "\<not> b" "errored l'"
    "tokens l' = tokens l @ [\<lparr>Typ = TokenError, Val = ''Unexpected EOF, string not closed.'',
                               Line = startline l, Col = startcol l\<rparr>]"
    by (simp_all add: ignore_def)
  then show ?thesis
    unfolding stateString_def s by simp
qed

subsection \<open>Symbols\<close>

lemma symbol_loop_find:
  "symbol_loop syms l =
    map_option (\<lambda>sy. (sy, emit TokenSymbol (l\<lparr>pos := pos l + length sy, col := col l + length sy\<rparr>)))
      (find (\<lambda>sy. HasPrefix (drop (start l) (input l)) sy) syms)"
  by (induction syms) auto

text \<open>The first character of a symbol is ASCII and is accepted by none of the four sets.\<close>

definition symbol_char :: "char \<Rightarrow> bool" where
  "symbol_char c \<longleftrightarrow> (of_char c :: nat) < 0x80 \<and>
     \<not> IndexRune_ge0 tokenSpaceChars (of_char c) \<and>
     \<not> IndexRune_ge0 tokenIdentifierChars (of_char c) \<and>
     \<not> IndexRune_ge0 tokenDigits (of_char c) \<and>
     \<not> IndexRune_ge0 quoteChars (of_char c)"

lemma symbol_head_all:
  "list_all (\<lambda>sy. case sy of [] \<Rightarrow> False | c # cs \<Rightarrow> symbol_char c) tokenSymbols"
  by code_simp

lemma symbol_head:
  assumes "sy \<in> set tokenSymbols"
  shows "\<exists>c cs. sy = c # cs \<and> symbol_char c"
  using symbol_head_all assms unfolding list_all_iff
  by (fastforce split: list.splits)


lemma find_SomeD: "find P xs = Some x \<Longrightarrow> P x \<and> x \<in> set xs"
  by (induction xs) (auto split: if_splits)

lemma two_char_self:
  "\<forall>s2 \<in> set tokenSymbols. length s2 = 2 \<longrightarrow> find (\<lambda>sy. prefix sy s2) tokenSymbols = Some s2"
  by code_simp

lemma prefix_append_short:
  "length sy \<le> length s2 \<Longrightarrow> prefix sy (s2 @ rest) = prefix sy s2"
  by (auto simp: prefix_append)

lemma two_char_first:
  assumes "s2 \<in> set tokenSymbols" and "length s2 = 2" and "HasPrefix rem s2"
  shows "find (\<lambda>sy. HasPrefix rem sy) tokenSymbols = Some s2"
proof -
  from assms(3) obtain rest where rem: "rem = s2 @ rest"
    by (auto simp: HasPrefix_def prefix_def)
  have "find (\<lambda>sy. prefix sy (s2 @ rest)) tokenSymbols = find (\<lambda>sy. prefix sy s2) tokenSymbols"
    using tokenSymbols_length assms(2) by (intro find_cong refl prefix_append_short) simp
  with two_char_self assms(1,2) show ?thesis
    unfolding rem HasPrefix_def by simp
qed

lemma HasPrefix_take: "HasPrefix s p \<Longrightarrow> take (length p) s = p"
  by (auto simp: HasPrefix_def prefix_def)

lemma stateCode_symbol:
  assumes "start l = pos l"
    and "find (\<lambda>sy. HasPrefix (drop (pos l) (input l)) sy) tokenSymbols = Some sy"
  shows "stateCode fmt_q l =
    (let l' = l\<lparr>width := 1, pos := pos l + length sy, col := col l + length sy,
                tokens := tokens l @ [\<lparr>Typ = TokenSymbol, Val = sy,
                                        Line = startline l, Col = startcol l\<rparr>],
                start := pos l + length sy, startline := line l,
                startcol := col l + length sy\<rparr>
     in if sy = ''%}'' \<or> sy = ''}}'' then (None, l') else stateCode fmt_q l')"
proof -
  note f = find_SomeD [OF assms(2)]
  from symbol_head f obtain c cs where sy: "sy = c # cs" and c: "symbol_char c" by blast
  from f sy have p: "pos l < length (input l)" "input l ! pos l = c"
    using HasPrefix_Cons_byte by blast+
  from c have lt: "(of_char c :: nat) < 0x80" by (simp add: symbol_char_def)
  have r: "rune_at (input l) (pos l) = (of_char c, 1)"
    using rune_at_byte [OF p(1)] p(2) lt by simp
  have n: "\<not> IndexRune_ge0 tokenSpaceChars (of_char c)"
    "\<not> IndexRune_ge0 tokenIdentifierChars (of_char c)"
    "\<not> IndexRune_ge0 tokenDigits (of_char c)" "\<not> IndexRune_ge0 quoteChars (of_char c)"
    using c by (simp_all add: symbol_char_def)
  have v: "take (length sy) (drop (pos l) (input l)) = sy"
    using f HasPrefix_take by blast
  have s: "symbol_loop tokenSymbols (l\<lparr>width := 1\<rparr>) =
    Some (sy, l\<lparr>width := 1, pos := pos l + length sy, col := col l + length sy,
                tokens := tokens l @ [\<lparr>Typ = TokenSymbol, Val = sy,
                                        Line = startline l, Col = startcol l\<rparr>],
                start := pos l + length sy, startline := line l,
                startcol := col l + length sy\<rparr>)"
    using assms v by (simp add: symbol_loop_find emit_def l_value_def)
  show ?thesis
    by (subst stateCode_unfold) (simp add: r n s Let_def del: One_nat_def)
qed

subsection \<open>An invariant of the lexer state\<close>

text \<open>
  The text of a token list: the texts of the tokens in order, with the double quotes put
  back around the text of a String token.
\<close>

definition render :: "Token list \<Rightarrow> string" where
  "render ts =
    concat (map (\<lambda>t. if Typ t = TokenString then CHR 0x22 # Val t @ [CHR 0x22] else Val t) ts)"

text \<open>The messages \<open>errorf\<close> is called with.\<close>

definition lex_msg :: "(rune \<Rightarrow> string) \<Rightarrow> string \<Rightarrow> bool" where
  "lex_msg fmt_q m \<longleftrightarrow>
     m = ''Single-line comment not closed.'' \<or>
     m = ''Newline not permitted in a single-line comment.'' \<or>
     m = ''Unexpected EOF, string not closed.'' \<or>
     (\<exists>r. m = ''Unknown character: '' @ fmt_q r @ '' ('' @ fmt_d r @ '')'')"

definition no_error :: "Token list \<Rightarrow> bool" where
  "no_error ts \<longleftrightarrow> (\<forall>t \<in> set ts. Typ t \<noteq> TokenError)"

definition error_last :: "(rune \<Rightarrow> string) \<Rightarrow> lexer \<Rightarrow> bool" where
  "error_last fmt_q l \<longleftrightarrow>
     tokens l \<noteq> [] \<and> Typ (last (tokens l)) = TokenError \<and>
     lex_msg fmt_q (Val (last (tokens l))) \<and>
     1 \<le> Line (last (tokens l)) \<and> 1 \<le> Col (last (tokens l)) \<and>
     no_error (butlast (tokens l))"

text \<open>
  The slice bounds are in range and lines and columns are at least 1; after an error the
  last token is the error token, and the only one; before it, no token is an error token
  and the text of the tokens emitted so far is what is left of the input before \<open>start\<close>
  when some characters are dropped.
\<close>

definition good :: "(rune \<Rightarrow> string) \<Rightarrow> lexer \<Rightarrow> bool" where
  "good fmt_q l \<longleftrightarrow>
     start l \<le> pos l \<and> pos l \<le> length (input l) \<and>
     1 \<le> line l \<and> 1 \<le> col l \<and> 1 \<le> startline l \<and> 1 \<le> startcol l \<and>
     (if errored l then error_last fmt_q l
      else subseq (render (tokens l)) (take (start l) (input l)) \<and> no_error (tokens l))"

lemma no_error_simps [simp]:
  "no_error []" "no_error (ts @ [t]) \<longleftrightarrow> no_error ts \<and> Typ t \<noteq> TokenError"
  by (auto simp: no_error_def)

lemma render_snoc:
  "render (ts @ [t]) =
    render ts @ (if Typ t = TokenString then CHR 0x22 # Val t @ [CHR 0x22] else Val t)"
  by (simp add: render_def)

lemma take_slice: "a \<le> b \<Longrightarrow> take b s = take a s @ take (b - a) (drop a s)"
  by (metis le_add_diff_inverse take_add)

lemma subseq_take_mono:
  assumes "subseq xs (take a s)" and "a \<le> b"
  shows "subseq xs (take b s)"
proof -
  have "subseq (take a s) (take b s)"
    using assms(2) by (metis prefix_imp_subseq take_is_prefix take_take min.absorb1)
  with assms(1) show ?thesis by (rule subseq_order.trans)
qed

lemma subseq_slice:
  assumes "subseq xs (take a s)" and "a \<le> b"
  shows "subseq (xs @ take (b - a) (drop a s)) (take b s)"
  unfolding take_slice [OF assms(2), of s]
  using assms(1) by (intro list_emb_append_mono) simp_all

lemma error_last_upd [simp]:
  "error_last fmt_q (l\<lparr>width := w\<rparr>) = error_last fmt_q l"
  "error_last fmt_q (l\<lparr>pos := p\<rparr>) = error_last fmt_q l"
  "error_last fmt_q (l\<lparr>col := c\<rparr>) = error_last fmt_q l"
  "error_last fmt_q (l\<lparr>line := c\<rparr>) = error_last fmt_q l"
  by (simp_all add: error_last_def)

lemma good_width [simp]: "good fmt_q (l\<lparr>width := w\<rparr>) = good fmt_q l"
  by (simp add: good_def)

lemma good_col: "good fmt_q l \<Longrightarrow> 1 \<le> c \<Longrightarrow> good fmt_q (l\<lparr>col := c\<rparr>)"
  by (simp add: good_def)

lemma good_line: "good fmt_q l \<Longrightarrow> 1 \<le> c \<Longrightarrow> good fmt_q (l\<lparr>line := c\<rparr>)"
  by (simp add: good_def)

lemma good_pos:
  "good fmt_q l \<Longrightarrow> pos l \<le> p \<Longrightarrow> p \<le> length (input l) \<Longrightarrow> good fmt_q (l\<lparr>pos := p\<rparr>)"
  by (simp add: good_def)

lemma good_ignore: "good fmt_q l \<Longrightarrow> \<not> errored l \<Longrightarrow> good fmt_q (ignore l)"
  by (auto simp: good_def ignore_def intro: subseq_take_mono)

lemma good_emit:
  "good fmt_q l \<Longrightarrow> \<not> errored l \<Longrightarrow> t \<noteq> TokenString \<Longrightarrow> t \<noteq> TokenError \<Longrightarrow>
     good fmt_q (emit t l)"
  by (auto simp: good_def emit_def render_snoc l_value_def intro: subseq_slice)

lemma good_errorf:
  "good fmt_q l \<Longrightarrow> \<not> errored l \<Longrightarrow> lex_msg fmt_q m \<Longrightarrow> good fmt_q (errorf m l)"
  by (simp add: good_def errorf_def error_last_def)

lemma emit_sel [simp]:
  "errored (emit t l) = errored l" "input (emit t l) = input l" "pos (emit t l) = pos l"
  "start (emit t l) = pos l"
  by (simp_all add: emit_def)

lemma errorf_sel [simp]:
  "errored (errorf m l)" "input (errorf m l) = input l"
  by (simp_all add: errorf_def)

lemma ignore_sel [simp]:
  "errored (ignore l) = errored l" "input (ignore l) = input l" "pos (ignore l) = pos l"
  "start (ignore l) = pos l"
  by (simp_all add: ignore_def)

lemma run_len_le: "p \<le> length s \<Longrightarrow> p + run_len what s p \<le> length s"
  using length_takeWhile_le [of "\<lambda>c. c \<in> set what" "drop p s"] by (simp add: run_len_def)

lemma stateIdentifier_good:
  assumes "stateIdentifier l = Some (st, l')" and "good fmt_q l" and "\<not> errored l"
  shows "good fmt_q l' \<and> \<not> errored l' \<and> start l' = pos l' \<and> input l' = input l"
proof -
  let ?p1 = "pos l + run_len tokenIdentifierChars (input l) (pos l)"
  let ?p2 = "?p1 + run_len tokenDigits (input l) ?p1"
  let ?l2 = "l\<lparr>width := snd (rune_at (input l) ?p2), pos := ?p2\<rparr>"
  have b: "pos l \<le> length (input l)" using assms(2) by (simp add: good_def)
  have "?p1 \<le> length (input l)" using run_len_le [OF b] .
  then have p2: "?p2 \<le> length (input l)" by (rule run_len_le)
  have g2: "good fmt_q ?l2" using assms(2) p2 by (intro good_pos) simp_all
  have e2: "\<not> errored ?l2" using assms(3) by simp
  have ci: "TokenIdentifier \<noteq> TokenString" "TokenKeyword \<noteq> TokenString"
    "TokenIdentifier \<noteq> TokenError" "TokenKeyword \<noteq> TokenError"
    by (simp_all add: TokenType_defs)
  have gc: "good fmt_q (?l2\<lparr>col := col ?l2 + length (l_value ?l2)\<rparr>)"
    using g2 assms(2) by (intro good_col) (simp_all add: good_def)
  from assms(1) have "l' = emit TokenKeyword ?l2 \<or>
      l' = emit TokenIdentifier (?l2\<lparr>col := col ?l2 + length (l_value ?l2)\<rparr>)"
    by (simp add: stateIdentifier_eq Let_def split: if_splits)
  then show ?thesis
  proof
    assume "l' = emit TokenKeyword ?l2"
    with good_emit [OF g2 e2 ci(2,4)] e2 show ?thesis by simp
  next
    assume "l' = emit TokenIdentifier (?l2\<lparr>col := col ?l2 + length (l_value ?l2)\<rparr>)"
    with good_emit [OF gc _ ci(1,3)] e2 show ?thesis by simp
  qed
qed

lemma stateNumber_good:
  assumes "stateNumber l = Some (st, l')" and "good fmt_q l" and "\<not> errored l"
  shows "good fmt_q l' \<and> \<not> errored l' \<and> start l' = pos l' \<and> input l' = input l"
proof -
  let ?p1 = "pos l + run_len tokenDigits (input l) (pos l)"
  let ?l1 = "l\<lparr>width := snd (rune_at (input l) ?p1), pos := ?p1\<rparr>"
  have b: "pos l \<le> length (input l)" using assms(2) by (simp add: good_def)
  have p1: "?p1 \<le> length (input l)" using run_len_le [OF b] .
  have g1: "good fmt_q ?l1" using assms(2) p1 by (intro good_pos) simp_all
  have e1: "\<not> errored ?l1" using assms(3) by simp
  have ci: "TokenNumber \<noteq> TokenString" "TokenNumber \<noteq> TokenError"
    by (simp_all add: TokenType_defs)
  have gc: "good fmt_q (?l1\<lparr>col := col ?l1 + length (l_value ?l1)\<rparr>)"
    using g1 assms(2) by (intro good_col) (simp_all add: good_def)
  from assms(1) have "l' = emit TokenNumber (?l1\<lparr>col := col ?l1 + length (l_value ?l1)\<rparr>)"
    by (simp add: stateNumber_eq Let_def)
  with good_emit [OF gc _ ci] e1 show ?thesis by simp
qed


lemma subseq_quoted:
  assumes "subseq xs (take a s)" and "a < b" and "b < length s" and "s ! a = q" and "s ! b = q"
  shows "subseq (xs @ q # take (b - Suc a) (drop (Suc a) s) @ [q]) (take (Suc b) s)"
proof -
  have "take (Suc b) s = take b s @ [q]"
    using assms(3,5) by (simp add: take_Suc_conv_app_nth)
  also have "take b s = take (Suc a) s @ take (b - Suc a) (drop (Suc a) s)"
    using assms(2) by (intro take_slice) simp
  also have "take (Suc a) s = take a s @ [q]"
    using assms(2,3,4) by (simp add: take_Suc_conv_app_nth)
  finally have "take (Suc b) s = take a s @ (q # take (b - Suc a) (drop (Suc a) s) @ [q])"
    by simp
  then show ?thesis
    using assms(1) by (simp add: list_emb_append_mono)
qed

lemma quote_accept:
  assumes "IndexRune_ge0 quoteChars (fst (rune_at s p))"
  shows "p < length s" and "s ! p = CHR 0x22" and "rune_at s p = (34, 1)"
proof -
  show lt: "p < length s"
    using assms accept_not_EOF(4) rune_at_not_EOF by blast
  from IndexRune_ge0_byte(1) [OF lt assms] show "s ! p = CHR 0x22"
    by (simp add: quoteChars_def)
  with IndexRune_ge0_byte(1) [OF lt assms] show "rune_at s p = (34, 1)" by simp
qed

lemma string_loop_good:
  assumes "string_loop l = (b, l')" and "good fmt_q l" and "\<not> errored l"
  shows "input l' = input l \<and>
    (if b then l' = l\<lparr>width := 1, pos := pos l'\<rparr> \<and> pos l < pos l' \<and>
                pos l' \<le> length (input l) \<and> input l ! (pos l' - 1) = CHR 0x22
     else good fmt_q l' \<and> errored l')"
  using assms
proof (induction l rule: string_loop.induct)
  case (1 l)
  let ?r = "fst (rune_at (input l) (pos l))"
  let ?w = "snd (rune_at (input l) (pos l))"
  let ?lw = "l\<lparr>width := ?w\<rparr>"
  let ?l2 = "l\<lparr>width := ?w, pos := pos l + ?w\<rparr>"
  have w: "pos l + ?w \<le> length (input l)"
  proof (cases "pos l < length (input l)")
    case True
    then show ?thesis using rune_at_width by blast
  next
    case False
    then show ?thesis using 1(3) by (simp add: rune_at_end good_def)
  qed
  have g2: "good fmt_q ?l2" using 1(3) w by (intro good_pos) simp_all
  show ?case
  proof (cases "IndexRune_ge0 quoteChars ?r")
    case True
    note q = quote_accept [OF True]
    from True 1(2) have "b" "l' = ?l2"
      by (subst (asm) string_loop.simps; simp add: accept_eq)+
    with q show ?thesis by simp
  next
    case na: False
    show ?thesis
    proof (cases "?r = EOF")
      case True
      with na 1(2) have "\<not> b" "l' = errorf ''Unexpected EOF, string not closed.'' ?l2"
        by (subst (asm) string_loop.simps; simp add: accept_eq l_next_eq)+
      moreover have "lex_msg fmt_q ''Unexpected EOF, string not closed.''"
        by (simp add: lex_msg_def)
      ultimately show ?thesis using good_errorf [OF g2] 1(4) by simp
    next
      case False
      have a: "(False, ?lw) = accept quoteChars l" using na by (simp add: accept_eq)
      have n: "(?r, ?l2) = l_next ?lw" by (simp add: l_next_eq)
      have s: "string_loop ?l2 = (b, l')"
        using 1(2) na False by (subst (asm) string_loop.simps) (simp add: accept_eq l_next_eq)
      have e2: "\<not> errored ?l2" using 1(4) by simp
      from 1(1) [OF a _ n False s g2 e2] show ?thesis
        by (auto split: if_splits)
    qed
  qed
qed


lemma stateString_good:
  assumes "stateString l = (st, l')" and "good fmt_q l" and "\<not> errored l"
    and "pos l = start l + 1" and "input l ! start l = CHR 0x22"
  shows "good fmt_q l' \<and> input l' = input l \<and>
    (case st of None \<Rightarrow> errored l'
     | Some s \<Rightarrow> s = StateCode \<and> \<not> errored l' \<and> start l' = pos l')"
proof -
  obtain b l1 where sl: "string_loop (ignore l) = (b, l1)" by (cases "string_loop (ignore l)")
  have gi: "good fmt_q (ignore l)" "\<not> errored (ignore l)"
    using assms(2,3) good_ignore by simp_all
  note g = string_loop_good [OF sl gi]
  show ?thesis
  proof (cases b)
    case False
    with assms(1) sl have "st = None" "l' = l1" by (simp_all add: stateString_def)
    with g False show ?thesis by simp
  next
    case True
    define p where "p = pos l1 - 1"
    from g True have l1: "l1 = (ignore l)\<lparr>width := 1, pos := pos l1\<rparr>"
      and p1: "pos l < pos l1" "pos l1 \<le> length (input l)" and q: "input l ! p = CHR 0x22"
      by (simp_all add: p_def)
    have pp: "pos l1 = Suc p" "start l < p" "p < length (input l)"
      using p1 assms(4) by (simp_all add: p_def)
    have r: "rune_at (input l) p = (34, 1)"
      using rune_at_byte [OF pp(3)] q by simp
    let ?v = "take (p - Suc (start l)) (drop (Suc (start l)) (input l))"
    let ?tok = "\<lparr>Typ = TokenString, Val = ?v, Line = startline l, Col = startcol l\<rparr>"
    have l1e: "l1 = l\<lparr>start := pos l, width := 1, pos := Suc p\<rparr>"
      using l1 pp(1) by (simp add: ignore_def)
    have sl': "string_loop (ignore l) = (True, l\<lparr>start := pos l, width := 1, pos := Suc p\<rparr>)"
      using sl True l1e by simp
    have "stateString l = (Some StateCode,
        l\<lparr>width := 1, pos := Suc p, col := col l + length ?v,
          tokens := tokens l @ [?tok], start := Suc p, startline := line l,
          startcol := col l + length ?v\<rparr>)"
      unfolding stateString_def sl'
      by (simp add: Let_def backup_def emit_def l_value_def l_next_eq ignore_def r assms(4))
    with assms(1) have l': "l' = l\<lparr>width := 1, pos := Suc p, col := col l + length ?v,
                       tokens := tokens l @ [?tok], start := Suc p, startline := line l,
                       startcol := col l + length ?v\<rparr>"
      by simp
    have "st = Some StateCode"
      using assms(1) True sl by (simp add: stateString_def Let_def)
    moreover have "subseq (render (tokens l @ [?tok])) (take (Suc p) (input l))"
      unfolding render_snoc using assms(2,3,5) pp q
      by (simp add: good_def subseq_quoted)
    moreover have "no_error (tokens l @ [?tok])"
      using assms(2,3) by (simp add: good_def TokenType_defs)
    ultimately show ?thesis
      using assms(2,3) pp unfolding l' by (auto simp: good_def)
  qed
qed


lemma HasPrefix_length: "HasPrefix (drop p s) sy \<Longrightarrow> p \<le> length s \<Longrightarrow> p + length sy \<le> length s"
  by (auto simp: HasPrefix_def dest!: prefix_length_le)

lemma stateCode_good:
  assumes "stateCode fmt_q l = (st, l')" and "good fmt_q l" and "\<not> errored l"
    and "start l = pos l"
  shows "good fmt_q l' \<and> input l' = input l \<and>
    (case st of
       None \<Rightarrow> \<not> errored l' \<longrightarrow> start l' = pos l'
     | Some s \<Rightarrow> s \<noteq> StateCode \<and> \<not> errored l' \<and>
         (s = StateString \<longrightarrow> pos l' = start l' + 1 \<and> input l' ! start l' = CHR 0x22))"
  using assms
proof (induction fmt_q l arbitrary: st l' rule: stateCode.induct)
  case (1 fmt_q l)
  let ?r = "fst (rune_at (input l) (pos l))"
  let ?w = "snd (rune_at (input l) (pos l))"
  let ?lw = "l\<lparr>width := ?w\<rparr>"
  let ?la = "l\<lparr>width := ?w, pos := pos l + ?w\<rparr>"
  note u = 1(3) [unfolded stateCode_unfold [of fmt_q l] Let_def]
  have b: "pos l \<le> length (input l)" "1 \<le> col l" "1 \<le> line l"
    using 1(4) by (simp_all add: good_def)
  have w: "pos l + ?w \<le> length (input l)"
  proof (cases "pos l < length (input l)")
    case True
    then show ?thesis using rune_at_width by blast
  next
    case False
    then show ?thesis using b by (simp add: rune_at_end)
  qed
  have ga: "good fmt_q ?la" using 1(4) w by (intro good_pos) simp_all
  have ea: "\<not> errored ?la" using 1(5) by simp
  show ?case
  proof (cases "IndexRune_ge0 tokenSpaceChars ?r")
    case True
    let ?l1 = "ignore (if l_value ?la = [CHR 0x0A] then ?la\<lparr>line := line ?la + 1, col := 1\<rparr>
                    else ?la\<lparr>col := col ?la + 1\<rparr>)"
    have a: "(True, ?la) = accept tokenSpaceChars l" using True by (simp add: accept_eq)
    have s1: "stateCode fmt_q ?l1 = (st, l')"
      using u True by (simp cong: if_cong split del: if_split)
    have "good fmt_q (?la\<lparr>line := line ?la + 1, col := 1\<rparr>)"
      using ga by (intro good_col good_line) simp_all
    moreover have "good fmt_q (?la\<lparr>col := col ?la + 1\<rparr>)"
      using ga by (intro good_col) simp_all
    ultimately have g1: "good fmt_q ?l1"
      using ea by (intro good_ignore) (simp_all split: if_splits)
    have e1: "\<not> errored ?l1" "start ?l1 = pos ?l1" "input ?l1 = input l"
      using ea by (simp_all split: if_splits)
    from 1(1) [OF a refl s1 g1 e1(1,2)] e1(3) show ?thesis by simp
  next
    case sp: False
    show ?thesis
    proof (cases "IndexRune_ge0 tokenIdentifierChars ?r \<or> IndexRune_ge0 tokenDigits ?r")
      case True
      with u sp have "l' = ?la" "st = Some StateIdentifier \<or> st = Some StateNumber"
        by (auto split: if_splits)
      with ga ea show ?thesis by auto
    next
      case False
      then have ni: "\<not> IndexRune_ge0 tokenIdentifierChars ?r" "\<not> IndexRune_ge0 tokenDigits ?r"
        by auto
      show ?thesis
      proof (cases "IndexRune_ge0 quoteChars ?r")
        case True
        note q = quote_accept [OF True]
        from u sp ni True have "l' = ?la" "st = Some StateString" by simp_all
        with ga ea q 1(6) show ?thesis by simp
      next
        case nq: False
        note u' = u [simplified sp ni nq if_False]
        show ?thesis
        proof (cases "symbol_loop tokenSymbols ?lw")
          case None
          have m: "lex_msg fmt_q (''Unknown character: '' @ fmt_q ?r @ '' ('' @ fmt_d ?r @ '')'')"
            unfolding lex_msg_def by blast
          from None u' have "st = None \<and> (l' = ?lw \<or>
              l' = errorf (''Unknown character: '' @ fmt_q ?r @ '' ('' @ fmt_d ?r @ '')'') ?lw)"
            by (simp split: if_splits)
          then show ?thesis
            using 1(4,5,6) good_errorf [of fmt_q ?lw, OF _ _ m] by auto
        next
          case (Some x)
          obtain sy l5 where x: "x = (sy, l5)" by (cases x)
          note sl = symbol_loop_Some [OF Some [unfolded x]]
          let ?lp = "?lw\<lparr>pos := pos ?lw + length sy, col := col ?lw + length sy\<rparr>"
          have "pos l + length sy \<le> length (input l)"
            using sl 1(6) b HasPrefix_length [of "pos l" "input l" sy] by simp
          then have "good fmt_q ?lp"
            using 1(4) b by (intro good_col good_pos) simp_all
          moreover have "TokenSymbol \<noteq> TokenString" "TokenSymbol \<noteq> TokenError"
            by (simp_all add: TokenType_defs)
          ultimately have g5: "good fmt_q l5" using sl 1(5) by (simp add: good_emit)
          have e5: "\<not> errored l5" "start l5 = pos l5" "input l5 = input l"
            using sl 1(5) by simp_all
          show ?thesis
          proof (cases "sy = ''%}'' \<or> sy = ''}}''")
            case True
            with u' Some x have "st = None \<and> l' = l5" by auto
            with g5 e5 show ?thesis by simp
          next
            case nc: False
            have a1: "(False, ?lw) = accept tokenSpaceChars l" using sp by (simp add: accept_eq)
            have a2: "(False, ?lw) = accept tokenIdentifierChars ?lw" using ni by (simp add: accept_eq)
            have a3: "(False, ?lw) = accept tokenDigits ?lw" using ni by (simp add: accept_eq)
            have a4: "(False, ?lw) = accept quoteChars ?lw" using nq by (simp add: accept_eq)
            have s5: "stateCode fmt_q l5 = (st, l')" using u' Some x nc by simp
            from 1(2) [OF a1 refl a2 refl a3 refl a4 refl Some x [symmetric] nc s5 g5 e5(1,2)] e5(3)
            show ?thesis by simp
          qed
        qed
      qed
    qed
  qed
qed

text \<open>What holds when a state function is entered.\<close>

definition pre_state :: "(rune \<Rightarrow> string) \<Rightarrow> lexerStateFn \<Rightarrow> lexer \<Rightarrow> bool" where
  "pre_state fmt_q s l \<longleftrightarrow>
     good fmt_q l \<and> \<not> errored l \<and>
     (case s of
        StateCode \<Rightarrow> start l = pos l
      | StateString \<Rightarrow> pos l = start l + 1 \<and> input l ! start l = CHR 0x22
      | _ \<Rightarrow> True)"

lemma run_state_good:
  assumes "run_state fmt_q s l = Some (st, l')" and "pre_state fmt_q s l"
  shows "good fmt_q l' \<and> input l' = input l \<and>
    (case st of None \<Rightarrow> \<not> errored l' \<longrightarrow> start l' = pos l'
     | Some s' \<Rightarrow> pre_state fmt_q s' l')"
proof (cases s)
  case StateCode
  with assms have "stateCode fmt_q l = (st, l')" "good fmt_q l" "\<not> errored l" "start l = pos l"
    by (simp_all add: run_state_def pre_state_def)
  from stateCode_good [OF this] show ?thesis
    by (auto simp: pre_state_def split: option.splits lexerStateFn.splits)
next
  case StateIdentifier
  with assms have "stateIdentifier l = Some (st, l')" "good fmt_q l" "\<not> errored l"
    by (simp_all add: run_state_def pre_state_def)
  from stateIdentifier_good [OF this] stateIdentifier_frame [OF this(1)] show ?thesis
    by (simp add: pre_state_def)
next
  case StateNumber
  with assms have "stateNumber l = Some (st, l')" "good fmt_q l" "\<not> errored l"
    by (simp_all add: run_state_def pre_state_def)
  from stateNumber_good [OF this] stateNumber_frame [OF this(1)] show ?thesis
    by (simp add: pre_state_def)
next
  case StateString
  with assms have "stateString l = (st, l')" "good fmt_q l" "\<not> errored l"
    "pos l = start l + 1" "input l ! start l = CHR 0x22"
    by (simp_all add: run_state_def pre_state_def)
  from stateString_good [OF this] show ?thesis
    by (auto simp: pre_state_def split: option.splits)
qed

lemma run_state_total: "\<exists>st l'. run_state fmt_q s l = Some (st, l')"
  by (cases s) (simp_all add: run_state_def stateIdentifier_eq stateNumber_eq Let_def)

lemma tokenize_loop_good:
  "tokenize_loop fmt_q s l = Some l' \<Longrightarrow> pre_state fmt_q s l \<Longrightarrow>
     good fmt_q l' \<and> input l' = input l \<and> (\<not> errored l' \<longrightarrow> start l' = pos l')"
proof (induction fmt_q s l rule: tokenize_loop.induct)
  case (1 fmt_q s l)
  from run_state_total obtain st l1 where r: "run_state fmt_q s l = Some (st, l1)" by blast
  note g = run_state_good [OF r 1(3)]
  show ?case
  proof (cases st)
    case None
    with 1(2) r have "l' = l1" by (subst (asm) tokenize_loop.simps) simp
    with g None show ?thesis by simp
  next
    case (Some s')
    with 1(2) r have t: "tokenize_loop fmt_q s' l1 = Some l'"
      by (subst (asm) tokenize_loop.simps) simp
    from g Some have "pre_state fmt_q s' l1" by simp
    from 1(1) [OF r refl Some t this] g show ?thesis by simp
  qed
qed

lemma tokenize_loop_total: "\<exists>l'. tokenize_loop fmt_q s l = Some l'"
proof (induction fmt_q s l rule: tokenize_loop.induct)
  case (1 fmt_q s l)
  from run_state_total obtain st l1 where r: "run_state fmt_q s l = Some (st, l1)" by blast
  show ?case
  proof (cases st)
    case None
    with r show ?thesis by (subst tokenize_loop.simps) simp
  next
    case (Some s')
    from 1 [OF r refl Some] obtain l' where "tokenize_loop fmt_q s' l1 = Some l'" by blast
    with r Some show ?thesis by (subst tokenize_loop.simps) simp
  qed
qed

lemma comment_loop_good:
  "comment_loop l = (b, l') \<Longrightarrow> good fmt_q l \<Longrightarrow> \<not> errored l \<Longrightarrow>
     good fmt_q l' \<and> input l' = input l \<and> (errored l' \<longleftrightarrow> \<not> b)"
proof (induction l rule: comment_loop.induct)
  case (1 l)
  let ?r = "fst (rune_at (input l) (pos l))"
  let ?lw = "l\<lparr>width := snd (rune_at (input l) (pos l))\<rparr>"
  have m: "lex_msg fmt_q ''Single-line comment not closed.''"
    "lex_msg fmt_q ''Newline not permitted in a single-line comment.''"
    by (simp_all add: lex_msg_def)
  have b: "pos l \<le> length (input l)" "1 \<le> col l" using 1(3) by (simp_all add: good_def)
  consider (eof) "?r = EOF" | (nl) "?r \<noteq> EOF" "?r = 0x0A"
    | (close) "?r \<noteq> EOF" "?r \<noteq> 0x0A" "HasPrefix (drop (pos l) (input l)) ''#}''"
    | (step) "?r \<noteq> EOF" "?r \<noteq> 0x0A" "\<not> HasPrefix (drop (pos l) (input l)) ''#}''"
    by blast
  then show ?case
  proof cases
    case eof
    with 1(2) have "\<not> b" "l' = errorf ''Single-line comment not closed.'' ?lw"
      by (subst (asm) comment_loop.simps; simp add: peek_eq)+
    with good_errorf [of fmt_q ?lw, OF _ _ m(1)] 1(3,4) show ?thesis by simp
  next
    case nl
    with 1(2) have "\<not> b" "l' = errorf ''Newline not permitted in a single-line comment.'' ?lw"
      by (subst (asm) comment_loop.simps; simp add: peek_eq)+
    with good_errorf [of fmt_q ?lw, OF _ _ m(2)] 1(3,4) show ?thesis by simp
  next
    case close
    with 1(2) have bl: "b" "l' = ?lw\<lparr>pos := pos ?lw + 2, col := col ?lw + 2\<rparr>"
      by (subst (asm) comment_loop.simps; simp add: peek_eq)+
    have "pos l + 2 \<le> length (input l)"
      using HasPrefix_length [OF close(3) b(1)] by simp
    then have "good fmt_q (?lw\<lparr>pos := pos ?lw + 2, col := col ?lw + 2\<rparr>)"
      using 1(3) by (intro good_col good_pos) simp_all
    with bl 1(4) show ?thesis by simp
  next
    case step
    let ?l1 = "?lw\<lparr>pos := pos ?lw + 1, col := col ?lw + 1\<rparr>"
    have p: "(?r, ?lw) = peek l" by (simp add: peek_eq)
    from step 1(2) have c: "comment_loop ?l1 = (b, l')"
      by (subst (asm) comment_loop.simps) (simp add: peek_eq)
    have "pos l < length (input l)" using rune_at_not_EOF [OF step(1)] .
    then have g1: "good fmt_q ?l1"
      using 1(3) by (intro good_col good_pos) simp_all
    have e1: "\<not> errored ?l1" using 1(4) by simp
    have h: "\<not> HasPrefix (drop (pos ?lw) (input ?lw)) ''#}''" using step(3) by simp
    from 1(1) [OF p step(1,2) h c g1 e1] show ?thesis by simp
  qed
qed

lemma good_emit_html:
  assumes "good fmt_q l" and "\<not> errored l"
  shows "good fmt_q (if pos l > start l then emit TokenHTML l else l)"
    and "start (if pos l > start l then emit TokenHTML l else l) = pos l"
    and "pos (if pos l > start l then emit TokenHTML l else l) = pos l"
    and "input (if pos l > start l then emit TokenHTML l else l) = input l"
    and "\<not> errored (if pos l > start l then emit TokenHTML l else l)"
proof -
  have "TokenHTML \<noteq> TokenString" "TokenHTML \<noteq> TokenError" by (simp_all add: TokenType_defs)
  with assms show "good fmt_q (if pos l > start l then emit TokenHTML l else l)"
    by (simp add: good_emit)
  show "start (if pos l > start l then emit TokenHTML l else l) = pos l"
    using assms(1) by (simp add: good_def)
  show "pos (if pos l > start l then emit TokenHTML l else l) = pos l" by simp
  show "input (if pos l > start l then emit TokenHTML l else l) = input l" by simp
  show "\<not> errored (if pos l > start l then emit TokenHTML l else l)" using assms(2) by simp
qed

lemma run_good:
  "run fmt_q l = Some l' \<Longrightarrow> good fmt_q l \<Longrightarrow> \<not> errored l \<Longrightarrow>
     good fmt_q l' \<and> input l' = input l"
proof (induction fmt_q l rule: run.induct)
  case (1 fmt_q l)
  let ?l1 = "if pos l > start l then emit TokenHTML l else l"
  note h = good_emit_html [OF 1(5,6)]
  have b: "pos l \<le> length (input l)" "1 \<le> col l" "1 \<le> line l"
    using 1(5) by (simp_all add: good_def)
  consider (in_comment) "HasPrefix (drop (pos l) (input l)) ''{#''"
    | (in_code) "\<not> HasPrefix (drop (pos l) (input l)) ''{#''"
        "HasPrefix (drop (pos l) (input l)) ''{{'' \<or> HasPrefix (drop (pos l) (input l)) ''{%''"
    | (in_text) "\<not> HasPrefix (drop (pos l) (input l)) ''{#''"
        "\<not> (HasPrefix (drop (pos l) (input l)) ''{{'' \<or> HasPrefix (drop (pos l) (input l)) ''{%'')"
    by blast
  then show ?case
  proof cases
    case in_comment
    note comment = in_comment
    let ?l2 = "?l1\<lparr>pos := pos ?l1 + 2, col := col ?l1 + 2\<rparr>"
    obtain b2 l3 where c: "comment_loop ?l2 = (b2, l3)" by (cases "comment_loop ?l2")
    have "pos l + 2 \<le> length (input l)"
      using HasPrefix_length [OF comment b(1)] by simp
    then have g2: "good fmt_q ?l2"
      using h by (intro good_col good_pos) simp_all
    have e2: "\<not> errored ?l2" using h(5) by simp
    note g3 = comment_loop_good [OF c g2 e2]
    have i2: "input ?l2 = input l" using h(4) by simp
    show ?thesis
    proof (cases b2)
      case False
      with 1(4) comment c have "l' = l3"
        by (subst (asm) run.simps) (simp add: Let_def)
      with g3 i2 show ?thesis by simp
    next
      case True
      with 1(4) comment c have r: "run fmt_q (ignore l3) = Some l'"
        by (subst (asm) run.simps) (simp add: Let_def)
      have gi: "good fmt_q (ignore l3)" "\<not> errored (ignore l3)"
        using g3 True by (simp_all add: good_ignore)
      from 1(1) [OF comment refl c [symmetric] eqTrueI [OF True] r gi] g3 i2 show ?thesis by simp
    qed
  next
    case in_code
    note code = in_code
    from tokenize_loop_total obtain l2 where t: "tokenize fmt_q ?l1 = Some l2"
      unfolding tokenize_def by blast
    have "pre_state fmt_q StateCode ?l1"
      using h by (simp add: pre_state_def)
    from tokenize_loop_good [OF t [unfolded tokenize_def] this]
    have g2: "good fmt_q l2" "input l2 = input l" using h(4) by simp_all
    show ?thesis
    proof (cases "errored l2")
      case True
      with 1(4) code t have "l' = l2"
        by (subst (asm) run.simps) (simp add: Let_def)
      with g2 show ?thesis by simp
    next
      case False
      with 1(4) code t have r: "run fmt_q l2 = Some l'"
        by (subst (asm) run.simps) (simp add: Let_def)
      from 1(2) [OF code refl t False r g2(1) False] g2(2) show ?thesis by simp
    qed
  next
    case in_text
    note tx = in_text
    let ?r = "fst (rune_at (input l) (pos l))"
    let ?w = "snd (rune_at (input l) (pos l))"
    let ?lw = "l\<lparr>width := ?w\<rparr>"
    let ?l2 = "if ?r = 0x0A then ?lw\<lparr>line := line ?lw + 1, col := 1\<rparr> else ?lw\<lparr>col := col ?lw + 1\<rparr>"
    let ?l3 = "?l2\<lparr>width := ?w, pos := pos l + ?w\<rparr>"
    have w: "pos l + ?w \<le> length (input l)"
    proof (cases "pos l < length (input l)")
      case True
      then show ?thesis using rune_at_width by blast
    next
      case False
      then show ?thesis using b by (simp add: rune_at_end)
    qed
    have "good fmt_q (?lw\<lparr>line := line ?lw + 1, col := 1\<rparr>)"
      using 1(5) by (intro good_col good_line) simp_all
    moreover have "good fmt_q (?lw\<lparr>col := col ?lw + 1\<rparr>)"
      using 1(5) by (intro good_col) simp_all
    ultimately have g2: "good fmt_q ?l2" by simp
    have s2: "pos ?l2 = pos l" "input ?l2 = input l" "\<not> errored ?l2" "start ?l2 = start l"
      using 1(6) by simp_all
    have g3: "good fmt_q ?l3" using g2 w s2 by (intro good_pos) simp_all
    have e3: "\<not> errored ?l3" "input ?l3 = input l" using s2 by simp_all
    have p: "(?r, ?lw) = peek l" by (simp add: peek_eq)
    have n: "(?r, ?l3) = l_next ?l2" using s2 by (simp add: l_next_eq)
    show ?thesis
    proof (cases "?r = EOF")
      case True
      with 1(4) tx s2 have "l' = (if pos ?l3 > start ?l3 then emit TokenHTML ?l3 else ?l3)"
        by (subst (asm) run.simps) (simp add: peek_eq l_next_eq Let_def cong: if_cong split del: if_split)
      with good_emit_html(1,4) [OF g3 e3(1)] e3(2) show ?thesis by simp
    next
      case False
      with 1(4) tx s2 have r: "run fmt_q ?l3 = Some l'"
        by (subst (asm) run.simps) (simp add: peek_eq l_next_eq Let_def cong: if_cong split del: if_split)
      from 1(3) [OF tx p refl n False r g3 e3(1)] e3(2) show ?thesis by simp
    qed
  qed
qed

lemma run_total: "\<exists>l'. run fmt_q l = Some l'"
proof (induction fmt_q l rule: run.induct)
  case (1 fmt_q l)
  let ?l1 = "if pos l > start l then emit TokenHTML l else l"
  consider (in_comment) "HasPrefix (drop (pos l) (input l)) ''{#''"
    | (in_code) "\<not> HasPrefix (drop (pos l) (input l)) ''{#''"
        "HasPrefix (drop (pos l) (input l)) ''{{'' \<or> HasPrefix (drop (pos l) (input l)) ''{%''"
    | (in_text) "\<not> HasPrefix (drop (pos l) (input l)) ''{#''"
        "\<not> (HasPrefix (drop (pos l) (input l)) ''{{'' \<or> HasPrefix (drop (pos l) (input l)) ''{%'')"
    by blast
  then show ?case
  proof cases
    case in_comment
    let ?l2 = "?l1\<lparr>pos := pos ?l1 + 2, col := col ?l1 + 2\<rparr>"
    obtain b2 l3 where c: "comment_loop ?l2 = (b2, l3)" by (cases "comment_loop ?l2")
    show ?thesis
    proof (cases b2)
      case False
      with in_comment c show ?thesis
        by (subst run.simps) (simp add: Let_def)
    next
      case True
      from 1(1) [OF in_comment refl c [symmetric] eqTrueI [OF True]]
      obtain l' where "run fmt_q (ignore l3) = Some l'" by blast
      with in_comment c True show ?thesis
        by (subst run.simps) (simp add: Let_def)
    qed
  next
    case in_code
    from tokenize_loop_total obtain l2 where t: "tokenize fmt_q ?l1 = Some l2"
      unfolding tokenize_def by blast
    show ?thesis
    proof (cases "errored l2")
      case True
      with in_code t show ?thesis
        by (subst run.simps) (simp add: Let_def)
    next
      case False
      from 1(2) [OF in_code refl t False] obtain l' where "run fmt_q l2 = Some l'" by blast
      with in_code t False show ?thesis
        by (subst run.simps) (simp add: Let_def)
    qed
  next
    case in_text
    let ?r = "fst (rune_at (input l) (pos l))"
    let ?w = "snd (rune_at (input l) (pos l))"
    let ?lw = "l\<lparr>width := ?w\<rparr>"
    let ?l2 = "if ?r = 0x0A then ?lw\<lparr>line := line ?lw + 1, col := 1\<rparr> else ?lw\<lparr>col := col ?lw + 1\<rparr>"
    let ?l3 = "?l2\<lparr>width := ?w, pos := pos l + ?w\<rparr>"
    have s2: "pos ?l2 = pos l" "input ?l2 = input l" by simp_all
    have p: "(?r, ?lw) = peek l" by (simp add: peek_eq)
    have n: "(?r, ?l3) = l_next ?l2" using s2 by (simp add: l_next_eq)
    show ?thesis
    proof (cases "?r = EOF")
      case True
      with in_text s2 show ?thesis
        by (subst run.simps) (simp add: peek_eq l_next_eq Let_def cong: if_cong split del: if_split)
    next
      case False
      from 1(3) [OF in_text p refl n False] obtain l' where "run fmt_q ?l3 = Some l'" by blast
      with in_text s2 False show ?thesis
        by (subst run.simps) (simp add: peek_eq l_next_eq Let_def cong: if_cong split del: if_split)
    qed
  qed
qed

text \<open>The state \<open>lex\<close> starts from, and the state \<open>run\<close> leaves.\<close>

definition lexer_init :: "string \<Rightarrow> string \<Rightarrow> lexer" where
  "lexer_init nm inp =
    \<lparr>name = nm, input = inp, start = 0, pos = 0, width = 0, tokens = [],
     errored = False, startline = 1, startcol = 1, line = 1, col = 1\<rparr>"

lemma lex_run:
  obtains l' where "run fmt_q (lexer_init nm inp) = Some l'" and "good fmt_q l'"
    and "input l' = inp"
proof -
  from run_total obtain l' where r: "run fmt_q (lexer_init nm inp) = Some l'" by blast
  have "good fmt_q (lexer_init nm inp)" "\<not> errored (lexer_init nm inp)"
    by (simp_all add: good_def lexer_init_def render_def)
  from run_good [OF r this] have "good fmt_q l'" "input l' = inp"
    by (simp_all add: lexer_init_def)
  with r that show ?thesis by blast
qed


lemma lex_eq:
  "lex fmt_q nm inp =
    (case run fmt_q (lexer_init nm inp) of
       None \<Rightarrow> None
     | Some l \<Rightarrow>
         if errored l then
           (case tokens l of
              [] \<Rightarrow> None
            | _ # _ \<Rightarrow>
                Some (Inl (''[Lexer Error in '' @ nm @ '' (Line '' @ fmt_d (int (Line (last (tokens l))))
                            @ '' Col '' @ fmt_d (int (Col (last (tokens l)))) @ '')]: ''
                            @ Val (last (tokens l)))))
         else Some (Inr (tokens l)))"
  unfolding lex_def lexer_init_def Let_def by (rule refl)



lemma lex_subseq:
  assumes "lex fmt_q nm inp = Some (Inr ts)"
  shows "subseq (render ts) inp"
proof -
  obtain l' where r: "run fmt_q (lexer_init nm inp) = Some l'" and g: "good fmt_q l'"
    and i: "input l' = inp"
    by (rule lex_run)
  from assms r have e: "\<not> errored l'" and ts: "ts = tokens l'"
    by (auto simp: lex_eq split: if_splits list.splits)
  with g i have "subseq (render ts) (take (start l') inp)" by (simp add: good_def)
  then show ?thesis
    using subseq_take_mono [of "render ts" "start l'" inp "length inp"]
    by (cases "start l' \<le> length inp") simp_all
qed

subsection \<open>The byte 1 further on\<close>

text \<open>The bytes of a rune after the first are continuation bytes.\<close>

lemma decode_continuation:
  assumes "i < snd (DecodeRuneInString (c0 # cs))" and "0 < i"
  shows "(0x80::nat) \<le> of_char (cs ! (i - 1))"
proof -
  let ?w = "snd (DecodeRuneInString (c0 # cs))"
  have w: "?w = 1 \<or> ?w = 2 \<and> (0x80::nat) \<le> of_char (cs ! 0)
      \<or> ?w = 3 \<and> (0x80::nat) \<le> of_char (cs ! 0) \<and> (0x80::nat) \<le> of_char (cs ! 1)
      \<or> ?w = 4 \<and> (0x80::nat) \<le> of_char (cs ! 0) \<and> (0x80::nat) \<le> of_char (cs ! 1)
          \<and> (0x80::nat) \<le> of_char (cs ! 2)"
    by (auto simp: Let_def split: if_splits)
  from assms have "i = 1 \<or> i = 2 \<or> i = 3 \<or> 4 \<le> i" by linarith
  with w assms show ?thesis by (auto simp: numeral_2_eq_2 numeral_3_eq_3)
qed

lemma rune_at_continuation:
  assumes "p < i" and "i < p + snd (rune_at s p)"
  shows "(0x80::nat) \<le> of_char (s ! i)"
proof -
  have lt: "p < length s"
    using assms by (cases "p < length s") (simp_all add: rune_at_end)
  then have d: "drop p s = s ! p # drop (Suc p) s" by (simp add: Cons_nth_drop_Suc)
  have r: "rune_at s p = DecodeRuneInString (s ! p # drop (Suc p) s)"
    using lt d by (simp add: rune_at_def)
  have w: "p + snd (rune_at s p) \<le> length s" using rune_at_width [OF lt] by simp
  from decode_continuation [of "i - p" "s ! p" "drop (Suc p) s"] assms r
  have "(0x80::nat) \<le> of_char (drop (Suc p) s ! (i - p - 1))" by simp
  moreover have "drop (Suc p) s ! (i - p - 1) = s ! i"
    using assms w by simp
  ultimately show ?thesis by simp
qed

text \<open>A rune read before a byte 1 ends before it.\<close>

lemma rune_at_before_byte1:
  assumes "p < k" and "s ! k = CHR 0x01"
  shows "p + snd (rune_at s p) \<le> k"
proof (rule ccontr)
  assume "\<not> p + snd (rune_at s p) \<le> k"
  then have "k < p + snd (rune_at s p)" by simp
  from rune_at_continuation [OF assms(1) this] assms(2) show False by simp
qed


lemma rune_at_EOF_byte:
  assumes "p < length s" and "fst (rune_at s p) = EOF"
  shows "s ! p = CHR 0x01"
proof -
  from assms(2) have "fst (rune_at s p) < 0x80" by (simp add: EOF_def)
  from rune_at_ascii(1) [OF assms(1) this] assms(2) have "(of_char (s ! p) :: int) = 1"
    by (simp add: EOF_def)
  then show ?thesis by (simp only: of_char_eq_1)
qed

lemma string_loop_byte1_at:
  assumes "k < length (input l)" and "input l ! k = CHR 0x01" and "pos l \<le> k"
    and "\<forall>i. pos l \<le> i \<and> i < k \<longrightarrow> input l ! i \<noteq> CHR 0x22"
  shows "\<exists>l'. string_loop l = (False, l') \<and> errored l' \<and>
     tokens l' = tokens l @ [\<lparr>Typ = TokenError, Val = ''Unexpected EOF, string not closed.'',
                               Line = startline l, Col = startcol l\<rparr>]"
  using assms
proof (induction "k - pos l" arbitrary: l rule: less_induct)
  case less
  show ?case
  proof (cases "pos l = k")
    case True
    with less(2,3) show ?thesis
      by (simp add: string_loop_byte1 errorf_def)
  next
    case False
    with less(4) have lt: "pos l < k" by simp
    let ?r = "fst (rune_at (input l) (pos l))"
    let ?w = "snd (rune_at (input l) (pos l))"
    let ?l2 = "l\<lparr>width := ?w, pos := pos l + ?w\<rparr>"
    have na: "\<not> IndexRune_ge0 quoteChars ?r"
      using quote_accept(2) [of "input l" "pos l"] less(5) lt by auto
    show ?thesis
    proof (cases "?r = EOF")
      case True
      with na show ?thesis
        by (subst string_loop.simps) (simp add: accept_eq l_next_eq errorf_def)
    next
      case ne: False
      have s: "string_loop l = string_loop ?l2"
        using na ne by (subst string_loop.simps) (simp add: accept_eq l_next_eq)
      have pl: "pos l < length (input l)" using lt less(2) by simp
      have w: "1 \<le> ?w" "pos l + ?w \<le> k"
        using rune_at_width [OF pl] rune_at_before_byte1 [OF lt less(3)] by simp_all
      have "k - pos ?l2 < k - pos l" using w lt by simp
      from less(1) [OF this] less(2,3,5) w
      have "\<exists>l'. string_loop ?l2 = (False, l') \<and> errored l' \<and>
        tokens l' = tokens ?l2 @ [\<lparr>Typ = TokenError, Val = ''Unexpected EOF, string not closed.'',
                               Line = startline ?l2, Col = startcol ?l2\<rparr>]"
        by simp
      with s show ?thesis by simp
    qed
  qed
qed

lemma run_byte1_at:
  assumes "k < length (input l)" and "input l ! k = CHR 0x01" and "pos l \<le> k"
    and "start l \<le> pos l"
    and "\<forall>i. pos l \<le> i \<and> i < k \<longrightarrow> input l ! i \<noteq> CHR ''{'' \<and> input l ! i \<noteq> CHR 0x01"
  shows "\<exists>l'. run fmt_q l = Some l' \<and> errored l' = errored l \<and>
     tokens l' = tokens l @
       [\<lparr>Typ = TokenHTML, Val = take (Suc k - start l) (drop (start l) (input l)),
         Line = startline l, Col = startcol l\<rparr>]"
  using assms
proof (induction "k - pos l" arbitrary: l rule: less_induct)
  case less
  show ?case
  proof (cases "pos l = k")
    case True
    with less(2,3,5) show ?thesis
      by (simp add: run_byte1 emit_def l_value_def)
  next
    case False
    with less(4) have lt: "pos l < k" by simp
    have pl: "pos l < length (input l)" using lt less(2) by simp
    let ?r = "fst (rune_at (input l) (pos l))"
    let ?w = "snd (rune_at (input l) (pos l))"
    let ?lw = "l\<lparr>width := ?w\<rparr>"
    let ?l2 = "if ?r = 0x0A then ?lw\<lparr>line := line ?lw + 1, col := 1\<rparr> else ?lw\<lparr>col := col ?lw + 1\<rparr>"
    let ?l3 = "?l2\<lparr>width := ?w, pos := pos l + ?w\<rparr>"
    have b: "input l ! pos l \<noteq> CHR ''{''" "input l ! pos l \<noteq> CHR 0x01"
      using less(6) lt by auto
    have np: "\<not> HasPrefix (drop (pos l) (input l)) ''{#''"
      "\<not> HasPrefix (drop (pos l) (input l)) ''{{''" "\<not> HasPrefix (drop (pos l) (input l)) ''{%''"
      using HasPrefix_Cons_byte [of "pos l" "input l" "CHR ''{''"] b(1) by blast+
    have ne: "?r \<noteq> EOF" using rune_at_EOF_byte [OF pl] b(2) by blast
    have s2: "pos ?l2 = pos l" "input ?l2 = input l" by simp_all
    have r: "run fmt_q l = run fmt_q ?l3"
      using np ne s2
      by (subst run.simps) (simp add: peek_eq l_next_eq Let_def cong: if_cong split del: if_split)
    have w: "1 \<le> ?w" "pos l + ?w \<le> k"
      using rune_at_width [OF pl] rune_at_before_byte1 [OF lt less(3)] by simp_all
    have f: "input ?l3 = input l" "pos ?l3 = pos l + ?w" "start ?l3 = start l"
      "tokens ?l3 = tokens l" "errored ?l3 = errored l" "startline ?l3 = startline l"
      "startcol ?l3 = startcol l"
      by simp_all
    have "k - pos ?l3 < k - pos l" using w lt f(2) by linarith
    from less(1) [OF this] less(2,3,5,6) w
    have "\<exists>l'. run fmt_q ?l3 = Some l' \<and> errored l' = errored ?l3 \<and>
      tokens l' = tokens ?l3 @
       [\<lparr>Typ = TokenHTML, Val = take (Suc k - start ?l3) (drop (start ?l3) (input ?l3)),
         Line = startline ?l3, Col = startcol ?l3\<rparr>]"
      unfolding f by simp
    with r show ?thesis unfolding f by simp
  qed
qed

lemma stateString_byte1_at:
  assumes "k < length (input l)" and "input l ! k = CHR 0x01" and "pos l \<le> k"
    and "\<forall>i. pos l \<le> i \<and> i < k \<longrightarrow> input l ! i \<noteq> CHR 0x22"
  shows "\<exists>l'. stateString l = (None, l') \<and> errored l' \<and>
     tokens l' = tokens l @ [\<lparr>Typ = TokenError, Val = ''Unexpected EOF, string not closed.'',
                               Line = startline l, Col = startcol l\<rparr>]"
proof -
  from string_loop_byte1_at [of k "ignore l"] assms
  obtain l' where "string_loop (ignore l) = (False, l')" "errored l'"
    "tokens l' = tokens l @ [\<lparr>Typ = TokenError, Val = ''Unexpected EOF, string not closed.'',
                               Line = startline l, Col = startcol l\<rparr>]"
    by (auto simp: ignore_def)
  then show ?thesis by (simp add: stateString_def)
qed

subsection \<open>An input that opens a variable tag and a string literal\<close>

text \<open>
  For an input \<open>{{ "\<close>\<open>rest\<close>, \<open>lex\<close> emits the symbol, skips the blank, accepts the quote and
  enters \<open>stateString\<close> in the state \<open>string_opened\<close>; when \<open>stateString\<close> fails there,
  \<open>lex\<close> returns its error.
\<close>

definition string_opened :: "string \<Rightarrow> string \<Rightarrow> lexer" where
  "string_opened nm rest =
    \<lparr>name = nm, input = CHR ''{'' # CHR ''{'' # CHR '' '' # CHR 0x22 # rest, start = 3, pos = 4,
     width = 1, tokens = [\<lparr>Typ = TokenSymbol, Val = ''{{'', Line = 1, Col = 1\<rparr>],
     errored = False, startline = 1, startcol = 3, line = 1, col = 4\<rparr>"

lemma lex_string_opened:
  assumes "stateString (string_opened nm rest) = (None, l')" and "errored l'"
    and "tokens l' = tokens (string_opened nm rest) @
           [\<lparr>Typ = TokenError, Val = ''Unexpected EOF, string not closed.'',
             Line = startline (string_opened nm rest), Col = startcol (string_opened nm rest)\<rparr>]"
  shows "lex fmt_q nm (CHR ''{'' # CHR ''{'' # CHR '' '' # CHR 0x22 # rest) =
    Some (Inl (''[Lexer Error in '' @ nm @ '' (Line 1 Col 3)]: Unexpected EOF, string not closed.''))"
proof -
  let ?inp = "CHR ''{'' # CHR ''{'' # CHR '' '' # CHR 0x22 # rest"
  let ?l0 = "\<lparr>name = nm, input = ?inp, start = 0, pos = 0, width = 0, tokens = [],
                      errored = False, startline = 1, startcol = 1, line = 1, col = 1\<rparr>"
  let ?tk = "\<lparr>Typ = TokenSymbol, Val = ''{{'', Line = 1, Col = 1\<rparr>"
  let ?lS = "\<lparr>name = nm, input = ?inp, start = 3, pos = 4, width = 1, tokens = [?tk],
                      errored = False, startline = 1, startcol = 3, line = 1, col = 4\<rparr>"
  have r: "rune_at ?inp 0 = (123, 1)" "rune_at ?inp 2 = (32, 1)" "rune_at ?inp 3 = (34, 1)"
    by (simp_all add: rune_at_def)
  have i: "\<not> IndexRune_ge0 tokenSpaceChars 123" "\<not> IndexRune_ge0 tokenIdentifierChars 123"
    "\<not> IndexRune_ge0 tokenDigits 123" "\<not> IndexRune_ge0 quoteChars 123"
    "IndexRune_ge0 tokenSpaceChars 32"
    "\<not> IndexRune_ge0 tokenSpaceChars 34" "\<not> IndexRune_ge0 tokenIdentifierChars 34"
    "\<not> IndexRune_ge0 tokenDigits 34" "IndexRune_ge0 quoteChars 34"
    by (simp_all add: IndexRune_ge0_def tokenSpaceChars_def tokenIdentifierChars_def
      tokenDigits_def quoteChars_def)
  let ?lA = "\<lparr>name = nm, input = ?inp, start = 2, pos = 2, width = 1, tokens = [?tk],
                      errored = False, startline = 1, startcol = 3, line = 1, col = 3\<rparr>"
  let ?lB = "\<lparr>name = nm, input = ?inp, start = 3, pos = 3, width = 1, tokens = [?tk],
                      errored = False, startline = 1, startcol = 3, line = 1, col = 4\<rparr>"
  have c1: "stateCode fmt_q ?l0 = stateCode fmt_q ?lA"
    by (subst stateCode_unfold)
      (simp add: r i Let_def tokenSymbols_def HasPrefix_def emit_def l_value_def,
       simp add: eval_nat_numeral)
  have c2: "stateCode fmt_q ?lA = stateCode fmt_q ?lB"
    by (subst stateCode_unfold)
      (simp add: r i Let_def ignore_def l_value_def, simp add: eval_nat_numeral)
  have c3: "stateCode fmt_q ?lB = (Some StateString, ?lS)"
    by (subst stateCode_unfold) (simp add: r i Let_def, (simp add: eval_nat_numeral)?)
  have sc: "stateCode fmt_q ?l0 = (Some StateString, ?lS)"
    using c1 c2 c3 by simp
  have st: "stateString ?lS = (None, l')"
    using assms(1) by (simp add: string_opened_def)
  have t: "tokens l' = [?tk, \<lparr>Typ = TokenError, Val = ''Unexpected EOF, string not closed.'',
                               Line = 1, Col = 3\<rparr>]"
    using assms(3) by (simp add: string_opened_def)
  have "tokenize_loop fmt_q StateString ?lS = Some l'"
    by (subst tokenize_loop.simps) (simp add: run_state_def st del: One_nat_def)
  then have tk: "tokenize fmt_q ?l0 = Some l'"
    unfolding tokenize_def by (subst tokenize_loop.simps) (simp add: run_state_def sc del: One_nat_def)
  have "run fmt_q ?l0 = Some l'"
    by (subst run.simps) (simp add: HasPrefix_def tk assms(2) del: One_nat_def)
  then show ?thesis
    by (simp add: lex_def assms(2) t fmt_d_def fmt_nat.simps)
qed

lemma lex_pure_text_byte1:
  assumes "\<forall>c \<in> set pre. c \<noteq> CHR ''{'' \<and> c \<noteq> CHR 0x01"
  shows "lex fmt_q nm (pre @ CHR 0x01 # post) =
    Some (Inr [\<lparr>Typ = TokenHTML, Val = pre @ [CHR 0x01], Line = 1, Col = 1\<rparr>])"
proof -
  let ?inp = "pre @ CHR 0x01 # post"
  have "\<forall>i. i < length pre \<longrightarrow> ?inp ! i \<noteq> CHR ''{'' \<and> ?inp ! i \<noteq> CHR 0x01"
    using assms by (simp add: nth_append)
  with run_byte1_at [of "length pre" "lexer_init nm ?inp" fmt_q]
  obtain l' where "run fmt_q (lexer_init nm ?inp) = Some l'" "\<not> errored l'"
    "tokens l' = [\<lparr>Typ = TokenHTML, Val = take (Suc (length pre)) ?inp, Line = 1, Col = 1\<rparr>]"
    by (auto simp: lexer_init_def)
  then show ?thesis by (simp add: lex_eq)
qed

subsection \<open>Text without tags\<close>

lemma run_text_end:
  assumes "pos l = length (input l)"
  shows "run fmt_q l =
    Some (if start l < pos l then emit TokenHTML (l\<lparr>width := 0, col := col l + 1\<rparr>)
          else l\<lparr>width := 0, col := col l + 1\<rparr>)"
proof -
  have r: "rune_at (input l) (length (input l)) = (EOF, 0)" by (simp add: rune_at_end)
  show ?thesis
    using assms
    apply (subst run.simps)
    apply (simp add: HasPrefix_def peek_eq l_next_eq r EOF_def Let_def)
    apply (cases l, simp)
    done
qed


lemma run_pure_text:
  assumes "pos l \<le> length (input l)" and "start l \<le> pos l"
    and "\<forall>i. pos l \<le> i \<and> i < length (input l) \<longrightarrow>
           input l ! i \<noteq> CHR ''{'' \<and> input l ! i \<noteq> CHR 0x01"
  shows "\<exists>l'. run fmt_q l = Some l' \<and> errored l' = errored l \<and>
     tokens l' =
       (if start l < length (input l)
        then tokens l @ [\<lparr>Typ = TokenHTML, Val = drop (start l) (input l),
                           Line = startline l, Col = startcol l\<rparr>]
        else tokens l)"
  using assms
proof (induction "length (input l) - pos l" arbitrary: l rule: less_induct)
  case less
  show ?case
  proof (cases "pos l = length (input l)")
    case True
    have np: "\<not> HasPrefix (drop (pos l) (input l)) ''{#''"
      "\<not> HasPrefix (drop (pos l) (input l)) ''{{''" "\<not> HasPrefix (drop (pos l) (input l)) ''{%''"
      using True by (simp_all add: HasPrefix_def)
    have "start l < length (input l) \<longleftrightarrow> start l < pos l" using True by simp
    then show ?thesis
      unfolding run_text_end [OF True]
      by (simp add: emit_def l_value_def True)
  next
    case False
    with less(2) have pl: "pos l < length (input l)" by simp
    let ?r = "fst (rune_at (input l) (pos l))"
    let ?w = "snd (rune_at (input l) (pos l))"
    let ?lw = "l\<lparr>width := ?w\<rparr>"
    let ?l2 = "if ?r = 0x0A then ?lw\<lparr>line := line ?lw + 1, col := 1\<rparr> else ?lw\<lparr>col := col ?lw + 1\<rparr>"
    let ?l3 = "?l2\<lparr>width := ?w, pos := pos l + ?w\<rparr>"
    have b: "input l ! pos l \<noteq> CHR ''{''" "input l ! pos l \<noteq> CHR 0x01"
      using less(4) pl by auto
    have np: "\<not> HasPrefix (drop (pos l) (input l)) ''{#''"
      "\<not> HasPrefix (drop (pos l) (input l)) ''{{''" "\<not> HasPrefix (drop (pos l) (input l)) ''{%''"
      using HasPrefix_Cons_byte [of "pos l" "input l" "CHR ''{''"] b(1) by blast+
    have ne: "?r \<noteq> EOF" using rune_at_EOF_byte [OF pl] b(2) by blast
    have s2: "pos ?l2 = pos l" "input ?l2 = input l" by simp_all
    have r: "run fmt_q l = run fmt_q ?l3"
      using np ne s2
      by (subst run.simps) (simp add: peek_eq l_next_eq Let_def cong: if_cong split del: if_split)
    have w: "1 \<le> ?w" "pos l + ?w \<le> length (input l)"
      using rune_at_width [OF pl] by simp_all
    have f: "input ?l3 = input l" "pos ?l3 = pos l + ?w" "start ?l3 = start l"
      "tokens ?l3 = tokens l" "errored ?l3 = errored l" "startline ?l3 = startline l"
      "startcol ?l3 = startcol l"
      by simp_all
    have "length (input ?l3) - pos ?l3 < length (input l) - pos l"
      unfolding f(1,2) using w pl by linarith
    from less(1) [OF this] less(3,4) w
    have "\<exists>l'. run fmt_q ?l3 = Some l' \<and> errored l' = errored ?l3 \<and>
      tokens l' =
       (if start ?l3 < length (input ?l3)
        then tokens ?l3 @ [\<lparr>Typ = TokenHTML, Val = drop (start ?l3) (input ?l3),
                           Line = startline ?l3, Col = startcol ?l3\<rparr>]
        else tokens ?l3)"
      unfolding f by simp
    with r show ?thesis unfolding f by simp
  qed
qed

lemma lex_pure_text:
  assumes "\<forall>c \<in> set inp. c \<noteq> CHR ''{'' \<and> c \<noteq> CHR 0x01"
  shows "lex fmt_q nm inp =
    Some (Inr (if inp = [] then []
               else [\<lparr>Typ = TokenHTML, Val = inp, Line = 1, Col = 1\<rparr>]))"
proof -
  let ?l = "lexer_init nm inp"
  have s: "pos ?l = 0" "start ?l = 0" "input ?l = inp" "tokens ?l = []" "\<not> errored ?l"
    "startline ?l = 1" "startcol ?l = 1"
    by (simp_all add: lexer_init_def)
  have "\<forall>i. pos ?l \<le> i \<and> i < length (input ?l) \<longrightarrow>
           input ?l ! i \<noteq> CHR ''{'' \<and> input ?l ! i \<noteq> CHR 0x01"
    unfolding s using assms by simp
  from run_pure_text [OF _ _ this, of fmt_q]
  obtain l' where "run fmt_q ?l = Some l'" "errored l' = errored ?l"
    "tokens l' = (if start ?l < length (input ?l)
        then tokens ?l @ [\<lparr>Typ = TokenHTML, Val = drop (start ?l) (input ?l),
                           Line = startline ?l, Col = startcol ?l\<rparr>]
        else tokens ?l)"
    unfolding s by auto
  then show ?thesis unfolding s by (simp add: lex_eq lexer_init_def)
qed

subsection \<open>What the specification keeps of the input\<close>

text \<open>
  The specification discards two things and nothing else. In text mode a comment is
  dropped, from \<open>{#\<close> through the next \<open>#}\<close>. In code mode, entered at \<open>{{\<close> or \<open>{%\<close> and left
  after the symbol \<open>}}\<close> or \<open>%}\<close>, the blanks between the tokens are dropped; a string literal
  is taken verbatim up to its closing quote, and a symbol is the first entry of the table
  that matches. \<open>spec_kept\<close> is the input without these parts. It is written from these
  rules of the specification, not from the code: it has no token, no position and no
  error, and on an input that the scanner rejects its value does not matter.
\<close>

datatype spec_mode = TextMode | CodeMode

fun spec_after_comment :: "string \<Rightarrow> string" where
  "spec_after_comment [] = []"
| "spec_after_comment (c # cs) = (if prefix ''#}'' (c # cs) then drop 1 cs else spec_after_comment cs)"

lemma after_comment_length: "length (spec_after_comment s) \<le> length s"
  by (induction s rule: spec_after_comment.induct) auto

function spec_kept :: "spec_mode \<Rightarrow> string \<Rightarrow> string" where
  "spec_kept m [] = []"
| "spec_kept TextMode (c # cs) =
    (if prefix ''{#'' (c # cs) then spec_kept TextMode (spec_after_comment (drop 1 cs))
     else if prefix ''{{'' (c # cs) \<or> prefix ''{%'' (c # cs) then
       take 2 (c # cs) @ spec_kept CodeMode (drop 1 cs)
     else c # spec_kept TextMode cs)"
| "spec_kept CodeMode (c # cs) =
    (if c \<in> set tokenSpaceChars then spec_kept CodeMode cs
     else if c = CHR 0x22 then
       (case dropWhile (\<lambda>x. x \<noteq> CHR 0x22) cs of
          [] \<Rightarrow> c # cs
        | q # rest \<Rightarrow> c # takeWhile (\<lambda>x. x \<noteq> CHR 0x22) cs @ q # spec_kept CodeMode rest)
     else
       (case find (\<lambda>sy. prefix sy (c # cs)) tokenSymbols of
          None \<Rightarrow> c # spec_kept CodeMode cs
        | Some sy \<Rightarrow>
            sy @ spec_kept (if sy = ''%}'' \<or> sy = ''}}'' then TextMode else CodeMode)
                   (drop (length sy) (c # cs))))"
  by pat_completeness auto
termination
proof (relation "measure (\<lambda>(m, s). length s)", goal_cases)
  case 1
  show ?case by simp
next
  case (2 c cs)
  show ?case using after_comment_length [of "drop 1 cs"] by simp
next
  case (3 c cs)
  show ?case by simp
next
  case (4 c cs)
  show ?case by simp
next
  case (5 c cs)
  show ?case by simp
next
  case (6 c cs q rest)
  have "length (dropWhile (\<lambda>x. x \<noteq> CHR 0x22) cs) \<le> length cs"
    by (rule length_dropWhile_le)
  with 6(3) show ?case by simp
next
  case (7 c cs)
  show ?case by simp
next
  case (8 c cs sy)
  from find_SomeD [OF 8(3)] have "sy \<in> set tokenSymbols" by simp
  then have "1 \<le> length sy" using tokenSymbols_length by blast
  then show ?case by simp
qed

declare spec_kept.simps [simp del]

text \<open>\<open>spec_kept\<close> only deletes.\<close>

lemma suffix_after_comment: "suffix (spec_after_comment s) s"
  by (induction s rule: spec_after_comment.induct) (auto simp: suffix_Cons intro: suffix_drop)

lemma kept_subseq: "subseq (spec_kept m s) s"
proof (induction m s rule: spec_kept.induct)
  case (1 m)
  show ?case by (simp add: spec_kept.simps)
next
  case (2 c cs)
  show ?case
  proof (cases "prefix ''{#'' (c # cs)")
    case True
    have k: "spec_kept TextMode (c # cs) = spec_kept TextMode (spec_after_comment (drop 1 cs))"
      by (subst spec_kept.simps) (simp only: True if_True)
    have "subseq (spec_after_comment (drop 1 cs)) (drop 1 cs)"
      using suffix_after_comment by (rule suffix_imp_subseq)
    also have "subseq (drop 1 cs) (c # cs)"
      by (metis subseq_Cons' subseq_drop_many suffix_drop suffix_imp_subseq subseq_order.refl list_emb_Cons)
    finally have "subseq (spec_after_comment (drop 1 cs)) (c # cs)" .
    with 2(1) [OF True] show ?thesis
      unfolding k by (rule subseq_order.trans)
  next
    case nc: False
    show ?thesis
    proof (cases "prefix ''{{'' (c # cs) \<or> prefix ''{%'' (c # cs)")
      case True
      have k: "spec_kept TextMode (c # cs) = take 2 (c # cs) @ spec_kept CodeMode (drop 1 cs)"
        by (subst spec_kept.simps) (simp only: nc True if_True if_False)
      have "subseq (take 1 cs @ spec_kept CodeMode (drop 1 cs)) (take 1 cs @ drop 1 cs)"
        using 2(2) [OF nc True] by (intro list_emb_append_mono) simp_all
      then show ?thesis
        unfolding k by (simp add: numeral_2_eq_2)
    next
      case False
      have k: "spec_kept TextMode (c # cs) = c # spec_kept TextMode cs"
        by (subst spec_kept.simps) (simp only: nc False if_False)
      from 2(3) [OF nc False] show ?thesis unfolding k by simp
    qed
  qed
next
  case (3 c cs)
  show ?case
  proof (cases "c \<in> set tokenSpaceChars")
    case True
    have k: "spec_kept CodeMode (c # cs) = spec_kept CodeMode cs"
      by (subst spec_kept.simps) (simp only: True if_True)
    from 3(1) [OF True] show ?thesis unfolding k by (rule list_emb_Cons)
  next
    case nb: False
    show ?thesis
    proof (cases "c = CHR 0x22")
      case True
      show ?thesis
      proof (cases "dropWhile (\<lambda>x. x \<noteq> CHR 0x22) cs")
        case Nil
        have k: "spec_kept CodeMode (c # cs) = c # cs"
          using nb by (subst spec_kept.simps) (simp add: True Nil)
        show ?thesis unfolding k by simp
      next
        case (Cons q rest)
        have k: "spec_kept CodeMode (c # cs) =
            c # takeWhile (\<lambda>x. x \<noteq> CHR 0x22) cs @ q # spec_kept CodeMode rest"
          using nb by (subst spec_kept.simps) (simp add: True Cons)
        have "cs = takeWhile (\<lambda>x. x \<noteq> CHR 0x22) cs @ q # rest"
          using takeWhile_dropWhile_id [of "\<lambda>x. x \<noteq> CHR 0x22" cs] Cons by simp
        moreover have "subseq (takeWhile (\<lambda>x. x \<noteq> CHR 0x22) cs @ q # spec_kept CodeMode rest)
            (takeWhile (\<lambda>x. x \<noteq> CHR 0x22) cs @ q # rest)"
          using 3(2) [OF nb True Cons] by (intro list_emb_append_mono) simp_all
        ultimately have "subseq (takeWhile (\<lambda>x. x \<noteq> CHR 0x22) cs @ q # spec_kept CodeMode rest) cs"
          by simp
        then show ?thesis unfolding k by simp
      qed
    next
      case nq: False
      show ?thesis
      proof (cases "find (\<lambda>sy. prefix sy (c # cs)) tokenSymbols")
        case None
        have k: "spec_kept CodeMode (c # cs) = c # spec_kept CodeMode cs"
          by (subst spec_kept.simps) (simp only: nb nq None if_False option.case)
        from 3(3) [OF nb nq None] show ?thesis unfolding k by simp
      next
        case (Some sy)
        have k: "spec_kept CodeMode (c # cs) =
            sy @ spec_kept (if sy = ''%}'' \<or> sy = ''}}'' then TextMode else CodeMode)
                   (drop (length sy) (c # cs))"
          by (subst spec_kept.simps) (simp only: nb nq Some if_False option.case)
        from find_SomeD [OF Some] have "prefix sy (c # cs)" by simp
        then have e: "c # cs = sy @ drop (length sy) (c # cs)"
          by (metis append_eq_conv_conj prefix_def)
        have "subseq (sy @ spec_kept (if sy = ''%}'' \<or> sy = ''}}'' then TextMode else CodeMode)
                 (drop (length sy) (c # cs))) (sy @ drop (length sy) (c # cs))"
          using 3(4) [OF nb nq Some] by (intro list_emb_append_mono) simp_all
        with e show ?thesis unfolding k by simp
      qed
    qed
  qed
qed

text \<open>\<open>spec_kept\<close> along the steps of the scanner.\<close>

lemma kept_text_step:
  assumes "p < length s" and "\<not> HasPrefix (drop p s) ''{#''"
    and "\<not> HasPrefix (drop p s) ''{{''" and "\<not> HasPrefix (drop p s) ''{%''"
  shows "spec_kept TextMode (drop p s) = s ! p # spec_kept TextMode (drop (Suc p) s)"
proof -
  have d: "drop p s = s ! p # drop (Suc p) s"
    using assms(1) by (simp add: Cons_nth_drop_Suc)
  show ?thesis
    using assms(2-4) unfolding d HasPrefix_def by (subst spec_kept.simps) auto
qed

lemma kept_text_skip:
  assumes "q \<le> length s" and "p \<le> q" and "\<forall>i. p \<le> i \<and> i < q \<longrightarrow> s ! i \<noteq> CHR ''{''"
  shows "spec_kept TextMode (drop p s) = take (q - p) (drop p s) @ spec_kept TextMode (drop q s)"
  using assms
proof (induction "q - p" arbitrary: p)
  case 0
  then show ?case by simp
next
  case (Suc n)
  then have lt: "p < length s" "p < q" by simp_all
  with Suc(5) have b: "s ! p \<noteq> CHR ''{''" by simp
  have np: "\<not> HasPrefix (drop p s) ''{#''" "\<not> HasPrefix (drop p s) ''{{''"
    "\<not> HasPrefix (drop p s) ''{%''"
    using HasPrefix_Cons_byte [of p s "CHR ''{''"] b by blast+
  have "n = q - Suc p" using Suc(2) by simp
  from Suc(1) [OF this Suc(3)] lt Suc(5)
  have ih: "spec_kept TextMode (drop (Suc p) s) =
      take (q - Suc p) (drop (Suc p) s) @ spec_kept TextMode (drop q s)"
    by simp
  have "take (q - p) (drop p s) = s ! p # take (q - Suc p) (drop (Suc p) s)"
    using lt by (simp add: Cons_nth_drop_Suc [symmetric] Suc_diff_Suc [symmetric] del: Suc_diff_Suc)
  then show ?case
    using kept_text_step [OF lt(1) np] ih by simp
qed

lemma kept_text_rune:
  assumes "p < length s" and "\<not> HasPrefix (drop p s) ''{#''"
    and "\<not> HasPrefix (drop p s) ''{{''" and "\<not> HasPrefix (drop p s) ''{%''"
  shows "spec_kept TextMode (drop p s) =
    take (snd (rune_at s p)) (drop p s) @ spec_kept TextMode (drop (p + snd (rune_at s p)) s)"
proof -
  let ?w = "snd (rune_at s p)"
  note w = rune_at_width [OF assms(1)]
  have c: "\<forall>i. Suc p \<le> i \<and> i < p + ?w \<longrightarrow> s ! i \<noteq> CHR ''{''"
  proof (intro allI impI)
    fix i assume "Suc p \<le> i \<and> i < p + ?w"
    then have "(0x80::nat) \<le> of_char (s ! i)"
      using rune_at_continuation [of p i s] by simp
    then show "s ! i \<noteq> CHR ''{''" by auto
  qed
  have "spec_kept TextMode (drop (Suc p) s) =
      take (p + ?w - Suc p) (drop (Suc p) s) @ spec_kept TextMode (drop (p + ?w) s)"
    using w c by (intro kept_text_skip) simp_all
  moreover have "take ?w (drop p s) = s ! p # take (p + ?w - Suc p) (drop (Suc p) s)"
    using w assms(1) by (cases ?w) (simp_all add: Cons_nth_drop_Suc [symmetric])
  ultimately show ?thesis
    using kept_text_step [OF assms] by simp
qed

lemma kept_text_comment:
  assumes "HasPrefix (drop p s) ''{#''"
  shows "spec_kept TextMode (drop p s) = spec_kept TextMode (spec_after_comment (drop (p + 2) s))"
proof -
  from assms obtain rest where d: "drop p s = ''{#'' @ rest"
    by (auto simp: HasPrefix_def prefix_def)
  have "drop (p + 2) s = drop 2 (drop p s)" by (simp add: add.commute)
  then have "drop (p + 2) s = rest" unfolding d by simp
  then show ?thesis unfolding d by (simp add: spec_kept.simps)
qed

lemma symbol_heads:
  "\<forall>sy \<in> set tokenSymbols. sy \<noteq> [] \<and> hd sy \<notin> set tokenSpaceChars \<and> hd sy \<noteq> CHR 0x22 \<and>
     hd sy \<notin> set tokenIdentifierChars \<and> hd sy \<notin> set tokenDigits"
  by code_simp

lemma plain_not_blank:
  "\<forall>c \<in> set (tokenIdentifierChars @ tokenDigits). c \<notin> set tokenSpaceChars \<and> c \<noteq> CHR 0x22"
  by code_simp

lemma kept_code_symbol:
  assumes "find (\<lambda>sy. prefix sy (drop p s)) tokenSymbols = Some sy"
  shows "spec_kept CodeMode (drop p s) =
    sy @ spec_kept (if sy = ''%}'' \<or> sy = ''}}'' then TextMode else CodeMode) (drop (p + length sy) s)"
proof -
  note f = find_SomeD [OF assms]
  with symbol_heads have h: "sy \<noteq> []" "hd sy \<notin> set tokenSpaceChars" "hd sy \<noteq> CHR 0x22"
    by blast+
  from f h(1) obtain cs where d: "drop p s = hd sy # cs"
    by (cases sy; cases "drop p s") (auto)
  have "drop (p + length sy) s = drop (length sy) (drop p s)" by (simp add: add.commute)
  then show ?thesis
    using assms h(2,3) unfolding d by (simp add: spec_kept.simps)
qed

lemma kept_code_brace:
  assumes "HasPrefix (drop p s) ''{{'' \<or> HasPrefix (drop p s) ''{%''"
    and "\<not> HasPrefix (drop p s) ''{#''"
  shows "spec_kept TextMode (drop p s) = spec_kept CodeMode (drop p s)"
proof -
  from assms(1) obtain sy where sy: "sy = ''{{'' \<or> sy = ''{%''" "HasPrefix (drop p s) sy"
    by blast
  then have "sy \<in> set tokenSymbols" "length sy = 2" by (auto simp: tokenSymbols_def)
  from two_char_first [OF this sy(2)]
  have f: "find (\<lambda>sy. prefix sy (drop p s)) tokenSymbols = Some sy"
    by (simp add: HasPrefix_def)
  from sy obtain rest where d: "drop p s = sy @ rest"
    by (auto simp: HasPrefix_def prefix_def)
  have "drop (p + length sy) s = drop (length sy) (drop p s)" by (simp add: add.commute)
  then have r: "drop (p + length sy) s = rest" unfolding d by simp
  have "spec_kept TextMode (drop p s) = sy @ spec_kept CodeMode rest"
    using sy(1) assms(2) unfolding d by (auto simp: spec_kept.simps HasPrefix_def)
  moreover have "spec_kept CodeMode (drop p s) = sy @ spec_kept CodeMode rest"
    using kept_code_symbol [OF f] sy(1) r by auto
  ultimately show ?thesis by simp
qed

lemma kept_code_blank:
  "p < length s \<Longrightarrow> s ! p \<in> set tokenSpaceChars \<Longrightarrow>
     spec_kept CodeMode (drop p s) = spec_kept CodeMode (drop (Suc p) s)"
  by (simp add: Cons_nth_drop_Suc [symmetric] spec_kept.simps)

lemma kept_code_plain:
  assumes "\<forall>c \<in> set xs. c \<in> set tokenIdentifierChars \<or> c \<in> set tokenDigits"
  shows "spec_kept CodeMode (xs @ rest) = xs @ spec_kept CodeMode rest"
  using assms
proof (induction xs)
  case Nil
  show ?case by simp
next
  case (Cons c xs)
  then have c: "c \<in> set (tokenIdentifierChars @ tokenDigits)" by auto
  with plain_not_blank have nb: "c \<notin> set tokenSpaceChars" "c \<noteq> CHR 0x22" by blast+
  have "find (\<lambda>sy. prefix sy (c # xs @ rest)) tokenSymbols = None"
  proof (rule ccontr)
    assume "find (\<lambda>sy. prefix sy (c # xs @ rest)) tokenSymbols \<noteq> None"
    then obtain sy where "find (\<lambda>sy. prefix sy (c # xs @ rest)) tokenSymbols = Some sy" by blast
    from find_SomeD [OF this] have p: "prefix sy (c # xs @ rest)" "sy \<in> set tokenSymbols" by simp_all
    with symbol_heads have "sy \<noteq> []" "hd sy \<notin> set tokenIdentifierChars" "hd sy \<notin> set tokenDigits"
      by blast+
    moreover from this(1) p(1) have "hd sy = c" by (cases sy) auto
    ultimately show False using c by auto
  qed
  with nb Cons show ?case by (simp add: spec_kept.simps)
qed

lemma kept_code_string:
  assumes "p < q" and "q < length s" and "s ! p = CHR 0x22" and "s ! q = CHR 0x22"
    and "\<forall>i. p < i \<and> i < q \<longrightarrow> s ! i \<noteq> CHR 0x22"
  shows "spec_kept CodeMode (drop p s) =
    CHR 0x22 # take (q - Suc p) (drop (Suc p) s) @ CHR 0x22 # spec_kept CodeMode (drop (Suc q) s)"
proof -
  let ?xs = "drop (Suc p) s"
  let ?n = "q - Suc p"
  have n: "?n < length ?xs" using assms(1,2) by simp
  have tw: "takeWhile (\<lambda>x. x \<noteq> CHR 0x22) ?xs = take ?n ?xs"
  proof (rule takeWhile_eq_take_P_nth)
    fix i assume "i < ?n" "i < length ?xs"
    then show "?xs ! i \<noteq> CHR 0x22" using assms(1,2,5) by simp
  next
    assume "?n < length ?xs"
    then show "\<not> ?xs ! ?n \<noteq> CHR 0x22" using assms(1,2,4) by simp
  qed
  have "dropWhile (\<lambda>x. x \<noteq> CHR 0x22) ?xs = drop ?n ?xs"
    using dropWhile_eq_drop [of "\<lambda>x. x \<noteq> CHR 0x22" ?xs] tw n by simp
  also have "\<dots> = drop q s" using assms(1) by simp
  also have "\<dots> = CHR 0x22 # drop (Suc q) s"
    using assms(2,4) by (simp add: Cons_nth_drop_Suc [symmetric])
  finally have dw: "dropWhile (\<lambda>x. x \<noteq> CHR 0x22) ?xs = CHR 0x22 # drop (Suc q) s" .
  have "drop p s = CHR 0x22 # ?xs"
    using assms(1,2,3) by (simp add: Cons_nth_drop_Suc [symmetric])
  then show ?thesis
    by (simp add: spec_kept.simps tokenSpaceChars_def dw tw)
qed

subsection \<open>The token texts are what the specification keeps\<close>

text \<open>
  \<open>agrees m l\<close>: the texts of the tokens emitted so far, followed by what the
  specification keeps of the input from \<open>start\<close> on when it is read in mode \<open>m\<close>, are what
  it keeps of the whole input. \<open>agrees_text\<close> is the same in text mode, with the pending
  text between \<open>start\<close> and \<open>pos\<close>. Every state function and loop keeps it as long as no
  error is raised; the byte 1 is excluded in text mode only, where \<open>run\<close> takes it for the
  end of the input.
\<close>

definition agrees :: "spec_mode \<Rightarrow> lexer \<Rightarrow> bool" where
  "agrees m l \<longleftrightarrow>
     render (tokens l) @ spec_kept m (drop (start l) (input l)) = spec_kept TextMode (input l)"

definition agrees_text :: "lexer \<Rightarrow> bool" where
  "agrees_text l \<longleftrightarrow>
     render (tokens l) @ l_value l @ spec_kept TextMode (drop (pos l) (input l)) =
       spec_kept TextMode (input l)"

lemma comment_loop_skip:
  "comment_loop l = (True, l') \<Longrightarrow>
     drop (pos l') (input l) = spec_after_comment (drop (pos l) (input l)) \<and>
     tokens l' = tokens l \<and> start l' = start l \<and> errored l' = errored l"
proof (induction l rule: comment_loop.induct)
  case (1 l)
  let ?r = "fst (rune_at (input l) (pos l))"
  let ?lw = "l\<lparr>width := snd (rune_at (input l) (pos l))\<rparr>"
  have ne: "?r \<noteq> EOF" "?r \<noteq> 0x0A"
    using 1(2) by (subst (asm) comment_loop.simps; auto simp: peek_eq split: if_splits)+
  show ?case
  proof (cases "HasPrefix (drop (pos l) (input l)) ''#}''")
    case True
    with ne 1(2) have l': "l' = ?lw\<lparr>pos := pos ?lw + 2, col := col ?lw + 2\<rparr>"
      by (subst (asm) comment_loop.simps) (simp add: peek_eq)
    from True obtain rest where d: "drop (pos l) (input l) = ''#}'' @ rest"
      by (auto simp: HasPrefix_def prefix_def)
    have "drop (pos l + 2) (input l) = drop 2 (drop (pos l) (input l))"
      by (simp add: add.commute)
    then have "drop (pos l + 2) (input l) = rest" unfolding d by simp
    then show ?thesis unfolding l' d by simp
  next
    case False
    let ?l1 = "?lw\<lparr>pos := pos ?lw + 1, col := col ?lw + 1\<rparr>"
    have p: "(?r, ?lw) = peek l" by (simp add: peek_eq)
    from False ne 1(2) have c: "comment_loop ?l1 = (True, l')"
      by (subst (asm) comment_loop.simps) (simp add: peek_eq)
    have h: "\<not> HasPrefix (drop (pos ?lw) (input ?lw)) ''#}''" using False by simp
    note ih = 1(1) [OF p ne h c]
    have lt: "pos l < length (input l)" using rune_at_not_EOF [OF ne(1)] .
    have d: "drop (pos l) (input l) = input l ! pos l # drop (Suc (pos l)) (input l)"
      using lt by (simp add: Cons_nth_drop_Suc)
    have "spec_after_comment (drop (pos l) (input l)) = spec_after_comment (drop (Suc (pos l)) (input l))"
      using False unfolding d HasPrefix_def by auto
    with ih show ?thesis by simp
  qed
qed

lemma run_len_take:
  "take (run_len what s p) (drop p s) = takeWhile (\<lambda>c. c \<in> set what) (drop p s)"
  by (simp add: run_len_def takeWhile_eq_take [symmetric])

lemma slice_plain:
  assumes "a < length s" and "s ! a \<in> set w0"
  shows "take (Suc (run_len w1 s (Suc a) + run_len w2 s (Suc a + run_len w1 s (Suc a)))) (drop a s) =
    s ! a # takeWhile (\<lambda>c. c \<in> set w1) (drop (Suc a) s)
      @ takeWhile (\<lambda>c. c \<in> set w2) (drop (Suc a + run_len w1 s (Suc a)) s)"
proof -
  let ?r1 = "run_len w1 s (Suc a)"
  let ?r2 = "run_len w2 s (Suc a + ?r1)"
  have d: "drop a s = s ! a # drop (Suc a) s" using assms(1) by (simp add: Cons_nth_drop_Suc)
  have "take (?r1 + ?r2) (drop (Suc a) s) =
      take ?r1 (drop (Suc a) s) @ take ?r2 (drop ?r1 (drop (Suc a) s))"
    by (rule take_add)
  also have "drop ?r1 (drop (Suc a) s) = drop (Suc a + ?r1) s" by (simp add: add.commute)
  finally show ?thesis unfolding d by (simp add: run_len_take)
qed

lemma agrees_emit_plain:
  assumes "agrees CodeMode l" and "start l \<le> p" and "p \<le> length (input l)"
    and "\<forall>c \<in> set (take (p - start l) (drop (start l) (input l))).
           c \<in> set tokenIdentifierChars \<or> c \<in> set tokenDigits"
    and "t \<noteq> TokenString"
    and "tokens l' = tokens l @ [\<lparr>Typ = t, Val = take (p - start l) (drop (start l) (input l)),
                                  Line = ln, Col = cl\<rparr>]"
    and "start l' = p" and "input l' = input l"
  shows "agrees CodeMode l'"
proof -
  let ?v = "take (p - start l) (drop (start l) (input l))"
  have "drop (start l) (input l) = ?v @ drop (p - start l) (drop (start l) (input l))"
    by (rule append_take_drop_id [symmetric])
  also have "drop (p - start l) (drop (start l) (input l)) = drop p (input l)"
    using assms(2) by simp
  finally have "spec_kept CodeMode (drop (start l) (input l)) = ?v @ spec_kept CodeMode (drop p (input l))"
    using kept_code_plain [OF assms(4), of "drop p (input l)"] by simp
  with assms(1,5) show ?thesis
    unfolding agrees_def assms(6,7,8) render_snoc by simp
qed

lemma stateIdentifier_agrees:
  assumes "stateIdentifier l = Some (st, l')" and "agrees CodeMode l"
    and "pos l = start l + 1" and "start l < length (input l)"
    and "input l ! start l \<in> set tokenIdentifierChars"
  shows "agrees CodeMode l'"
proof -
  let ?s = "input l"
  let ?a = "start l"
  let ?r1 = "run_len tokenIdentifierChars ?s (Suc ?a)"
  let ?r2 = "run_len tokenDigits ?s (Suc ?a + ?r1)"
  let ?p2 = "Suc ?a + ?r1 + ?r2"
  let ?l2 = "l\<lparr>width := snd (rune_at ?s ?p2), pos := ?p2\<rparr>"
  have b: "Suc ?a \<le> length ?s" using assms(4) by simp
  have "Suc ?a + ?r1 \<le> length ?s" using run_len_le [OF b] .
  then have p2: "?p2 \<le> length ?s" by (rule run_len_le)
  have v: "take (?p2 - ?a) (drop ?a ?s) =
      ?s ! ?a # takeWhile (\<lambda>c. c \<in> set tokenIdentifierChars) (drop (Suc ?a) ?s)
        @ takeWhile (\<lambda>c. c \<in> set tokenDigits) (drop (Suc ?a + ?r1) ?s)"
    using slice_plain [OF assms(4,5), of tokenIdentifierChars tokenDigits]
    by (simp add: add.assoc)
  have pl: "\<forall>c \<in> set (take (?p2 - ?a) (drop ?a ?s)).
           c \<in> set tokenIdentifierChars \<or> c \<in> set tokenDigits"
    unfolding v using assms(5) by (auto dest: set_takeWhileD)
  from assms(1,3) have "l' = emit TokenKeyword ?l2 \<or>
      l' = emit TokenIdentifier (?l2\<lparr>col := col ?l2 + length (l_value ?l2)\<rparr>)"
    by (simp add: stateIdentifier_eq Let_def split: if_splits)
  then obtain t where t: "t = TokenKeyword \<or> t = TokenIdentifier"
    and tk: "tokens l' = tokens l @ [\<lparr>Typ = t, Val = take (?p2 - ?a) (drop ?a ?s),
                                  Line = startline l, Col = startcol l\<rparr>]"
    and sl: "start l' = ?p2" "input l' = ?s"
    by (auto simp: emit_def l_value_def)
  from t have "t \<noteq> TokenString" by (auto simp: TokenType_defs)
  from agrees_emit_plain [OF assms(2) _ p2 pl this tk sl] show ?thesis by simp
qed

lemma stateNumber_agrees:
  assumes "stateNumber l = Some (st, l')" and "agrees CodeMode l"
    and "pos l = start l + 1" and "start l < length (input l)"
    and "input l ! start l \<in> set tokenDigits"
  shows "agrees CodeMode l'"
proof -
  let ?s = "input l"
  let ?a = "start l"
  let ?r1 = "run_len tokenDigits ?s (Suc ?a)"
  let ?p1 = "Suc ?a + ?r1"
  let ?l1 = "l\<lparr>width := snd (rune_at ?s ?p1), pos := ?p1\<rparr>"
  have b: "Suc ?a \<le> length ?s" using assms(4) by simp
  have p1: "?p1 \<le> length ?s" using run_len_le [OF b] .
  have d: "drop ?a ?s = ?s ! ?a # drop (Suc ?a) ?s" using assms(4) by (simp add: Cons_nth_drop_Suc)
  have v: "take (?p1 - ?a) (drop ?a ?s) =
      ?s ! ?a # takeWhile (\<lambda>c. c \<in> set tokenDigits) (drop (Suc ?a) ?s)"
    unfolding d by (simp add: run_len_take)
  have pl: "\<forall>c \<in> set (take (?p1 - ?a) (drop ?a ?s)).
           c \<in> set tokenIdentifierChars \<or> c \<in> set tokenDigits"
    unfolding v using assms(5) by (auto dest: set_takeWhileD)
  from assms(1,3) have "l' = emit TokenNumber (?l1\<lparr>col := col ?l1 + length (l_value ?l1)\<rparr>)"
    by (simp add: stateNumber_eq Let_def)
  then have tk: "tokens l' = tokens l @ [\<lparr>Typ = TokenNumber, Val = take (?p1 - ?a) (drop ?a ?s),
                                  Line = startline l, Col = startcol l\<rparr>]"
    and sl: "start l' = ?p1" "input l' = ?s"
    by (auto simp: emit_def l_value_def)
  have "TokenNumber \<noteq> TokenString" by (simp add: TokenType_defs)
  from agrees_emit_plain [OF assms(2) _ p1 pl this tk sl] show ?thesis by simp
qed


lemma string_loop_first_quote:
  "string_loop l = (True, l') \<Longrightarrow>
     \<forall>i. pos l \<le> i \<and> i < pos l' - 1 \<longrightarrow> input l ! i \<noteq> CHR 0x22"
proof (induction l rule: string_loop.induct)
  case (1 l)
  let ?r = "fst (rune_at (input l) (pos l))"
  let ?w = "snd (rune_at (input l) (pos l))"
  let ?lw = "l\<lparr>width := ?w\<rparr>"
  let ?l2 = "l\<lparr>width := ?w, pos := pos l + ?w\<rparr>"
  show ?case
  proof (cases "IndexRune_ge0 quoteChars ?r")
    case True
    note q = quote_accept [OF True]
    from True 1(2) have "l' = ?l2"
      by (subst (asm) string_loop.simps) (simp add: accept_eq)
    with q show ?thesis by auto
  next
    case na: False
    have ne: "?r \<noteq> EOF"
      using na 1(2) by (subst (asm) string_loop.simps) (auto simp: accept_eq l_next_eq split: if_splits)
    have lt: "pos l < length (input l)" using rune_at_not_EOF [OF ne] .
    have a: "(False, ?lw) = accept quoteChars l" using na by (simp add: accept_eq)
    have n: "(?r, ?l2) = l_next ?lw" by (simp add: l_next_eq)
    have s: "string_loop ?l2 = (True, l')"
      using 1(2) na ne by (subst (asm) string_loop.simps) (simp add: accept_eq l_next_eq)
    note ih = 1(1) [OF a _ n ne s]
    have h: "input l ! pos l \<noteq> CHR 0x22"
    proof
      assume "input l ! pos l = CHR 0x22"
      then have "input l ! pos l \<in> set quoteChars" by (simp add: quoteChars_def)
      from IndexRune_ge0_byte(2) [OF lt ascii_set_quote this] na show False by simp
    qed
    show ?thesis
    proof (intro allI impI)
      fix i assume i: "pos l \<le> i \<and> i < pos l' - 1"
      consider "i = pos l" | "pos l < i" "i < pos l + ?w" | "pos l + ?w \<le> i"
        using i by linarith
      then show "input l ! i \<noteq> CHR 0x22"
      proof cases
        case 1
        with h show ?thesis by simp
      next
        case 2
        from rune_at_continuation [OF 2] show ?thesis by auto
      next
        case 3
        with ih i show ?thesis by simp
      qed
    qed
  qed
qed

lemma stateString_agrees:
  assumes "stateString l = (Some s', l')" and "good fmt_q l" and "\<not> errored l"
    and "pos l = start l + 1" and "input l ! start l = CHR 0x22"
    and "agrees CodeMode l"
  shows "agrees CodeMode l'"
proof -
  obtain b l1 where sl: "string_loop (ignore l) = (b, l1)" by (cases "string_loop (ignore l)")
  have gi: "good fmt_q (ignore l)" "\<not> errored (ignore l)"
    using assms(2,3) good_ignore by simp_all
  have b: b using assms(1) sl by (cases b) (simp_all add: stateString_def)
  note g = string_loop_good [OF sl gi]
  define p where "p = pos l1 - 1"
  from g b have l1: "l1 = (ignore l)\<lparr>width := 1, pos := pos l1\<rparr>"
    and p1: "pos l < pos l1" "pos l1 \<le> length (input l)" and q: "input l ! p = CHR 0x22"
    by (simp_all add: p_def)
  have pp: "pos l1 = Suc p" "start l < p" "p < length (input l)"
    using p1 assms(4) by (simp_all add: p_def)
  have r: "rune_at (input l) p = (34, 1)"
    using rune_at_byte [OF pp(3)] q by simp
  let ?v = "take (p - Suc (start l)) (drop (Suc (start l)) (input l))"
  let ?tok = "\<lparr>Typ = TokenString, Val = ?v, Line = startline l, Col = startcol l\<rparr>"
  have l1e: "l1 = l\<lparr>start := pos l, width := 1, pos := Suc p\<rparr>"
    using l1 pp(1) by (simp add: ignore_def)
  have sl': "string_loop (ignore l) = (True, l\<lparr>start := pos l, width := 1, pos := Suc p\<rparr>)"
    using sl b l1e by simp
  have "stateString l = (Some StateCode,
        l\<lparr>width := 1, pos := Suc p, col := col l + length ?v,
          tokens := tokens l @ [?tok], start := Suc p, startline := line l,
          startcol := col l + length ?v\<rparr>)"
    unfolding stateString_def sl'
    by (simp add: Let_def backup_def emit_def l_value_def l_next_eq ignore_def r assms(4))
  with assms(1) have l': "tokens l' = tokens l @ [?tok]" "start l' = Suc p" "input l' = input l"
    by auto
  have nq: "\<forall>i. start l < i \<and> i < p \<longrightarrow> input l ! i \<noteq> CHR 0x22"
    using string_loop_first_quote [OF sl [unfolded eqTrueI [OF b]]] assms(4)
    by (simp add: p_def)
  from kept_code_string [OF pp(2,3) assms(5) q nq] assms(6)
  show ?thesis
    unfolding agrees_def l' render_snoc by simp
qed

lemma agrees_symbol:
  assumes "agrees CodeMode l" and "start l = pos l"
    and "symbol_loop tokenSymbols (l\<lparr>width := w\<rparr>) = Some (sy, l5)"
  shows "agrees (if sy = ''%}'' \<or> sy = ''}}'' then TextMode else CodeMode) l5"
proof -
  let ?s = "input l"
  from assms(3) have f: "find (\<lambda>sy. prefix sy (drop (pos l) ?s)) tokenSymbols = Some sy"
    using assms(2) by (auto simp: symbol_loop_find HasPrefix_def)
  note sd = find_SomeD [OF f]
  have v: "take (length sy) (drop (pos l) ?s) = sy"
    using sd HasPrefix_take [of "drop (pos l) ?s" sy] by (simp add: HasPrefix_def)
  from symbol_loop_Some [OF assms(3)]
  have l5: "tokens l5 = tokens l @ [\<lparr>Typ = TokenSymbol, Val = sy, Line = startline l, Col = startcol l\<rparr>]"
    "start l5 = pos l + length sy" "input l5 = ?s"
    using assms(2) v by (simp_all add: emit_def l_value_def)
  have "TokenSymbol \<noteq> TokenString" by (simp add: TokenType_defs)
  with kept_code_symbol [OF f] assms(1,2) show ?thesis
    unfolding agrees_def l5 render_snoc by simp
qed

lemma stateCode_agrees:
  assumes "stateCode fmt_q l = (st, l')" and "start l = pos l" and "pos l \<le> length (input l)"
    and "agrees CodeMode l" and "\<not> errored l'"
  shows "case st of
       None \<Rightarrow> agrees TextMode l'
     | Some s \<Rightarrow> agrees CodeMode l' \<and> pos l' = start l' + 1 \<and> start l' < length (input l') \<and>
         (s = StateIdentifier \<longrightarrow> input l' ! start l' \<in> set tokenIdentifierChars) \<and>
         (s = StateNumber \<longrightarrow> input l' ! start l' \<in> set tokenDigits)"
  using assms
proof (induction fmt_q l arbitrary: st l' rule: stateCode.induct)
  case (1 fmt_q l)
  let ?r = "fst (rune_at (input l) (pos l))"
  let ?w = "snd (rune_at (input l) (pos l))"
  let ?lw = "l\<lparr>width := ?w\<rparr>"
  let ?la = "l\<lparr>width := ?w, pos := pos l + ?w\<rparr>"
  note u = 1(3) [unfolded stateCode_unfold [of fmt_q l] Let_def]
  have acc: "pos l < length (input l) \<and> input l ! pos l \<in> set what \<and> ?w = 1"
    if "ascii_set what" "IndexRune_ge0 what ?r" for what
  proof -
    have lt: "pos l < length (input l)"
      using IndexRune_ge0_not_EOF [OF that] rune_at_not_EOF by blast
    from IndexRune_ge0_byte(1) [OF lt that(2)] lt show ?thesis by simp
  qed
  show ?case
  proof (cases "IndexRune_ge0 tokenSpaceChars ?r")
    case True
    let ?l1 = "ignore (if l_value ?la = [CHR 0x0A] then ?la\<lparr>line := line ?la + 1, col := 1\<rparr>
                    else ?la\<lparr>col := col ?la + 1\<rparr>)"
    note a1 = acc [OF ascii_set_space True]
    have a: "(True, ?la) = accept tokenSpaceChars l" using True by (simp add: accept_eq)
    have s1: "stateCode fmt_q ?l1 = (st, l')"
      using u True by (simp cong: if_cong split del: if_split)
    have e1: "start ?l1 = pos ?l1" "input ?l1 = input l" "pos ?l1 = Suc (pos l)"
      "tokens ?l1 = tokens l"
      using a1 by (simp_all add: ignore_def split: if_splits)
    have b1: "pos ?l1 \<le> length (input ?l1)" unfolding e1 using a1 by simp
    have g1: "agrees CodeMode ?l1"
      using 1(6) kept_code_blank [of "pos l" "input l"] a1 1(4)
      unfolding agrees_def e1 by simp
    from 1(1) [OF a refl s1 e1(1) b1 g1 1(7)] show ?thesis .
  next
    case sp: False
    show ?thesis
    proof (cases "IndexRune_ge0 tokenIdentifierChars ?r")
      case True
      note a1 = acc [OF ascii_set_identifier True]
      from u sp True have "l' = ?la" "st = Some StateIdentifier" by simp_all
      with a1 1(4,6) show ?thesis by (simp add: agrees_def)
    next
      case ni: False
      show ?thesis
      proof (cases "IndexRune_ge0 tokenDigits ?r")
        case True
        note a1 = acc [OF ascii_set_digits True]
        from u sp ni True have "l' = ?la" "st = Some StateNumber" by simp_all
        with a1 1(4,6) show ?thesis by (simp add: agrees_def)
      next
        case nd: False
        show ?thesis
        proof (cases "IndexRune_ge0 quoteChars ?r")
          case True
          note a1 = acc [OF ascii_set_quote True]
          from u sp ni nd True have "l' = ?la" "st = Some StateString" by simp_all
          with a1 1(4,6) show ?thesis by (simp add: agrees_def)
        next
          case nq: False
          note u' = u [simplified sp ni nd nq if_False]
          show ?thesis
          proof (cases "symbol_loop tokenSymbols ?lw")
            case None
            with u' 1(7) have "st = None" "l' = ?lw" "\<not> pos l < length (input l)"
              by (auto split: if_splits)
            with 1(4,5,6) show ?thesis by (simp add: agrees_def spec_kept.simps)
          next
            case (Some x)
            obtain sy l5 where x: "x = (sy, l5)" by (cases x)
            note sl = symbol_loop_Some [OF Some [unfolded x]]
            note g5 = agrees_symbol [OF 1(6,4) Some [unfolded x]]
            have e5: "start l5 = pos l5" "input l5 = input l" "pos l5 = pos l + length sy"
              using sl by simp_all
            have b5: "pos l5 \<le> length (input l5)"
              unfolding e5 using sl 1(4,5) HasPrefix_length [of "pos l" "input l" sy] by simp
            show ?thesis
            proof (cases "sy = ''%}'' \<or> sy = ''}}''")
              case True
              with u' Some x have "st = None" "l' = l5" by auto
              with g5 True show ?thesis by simp
            next
              case nc: False
              have a1: "(False, ?lw) = accept tokenSpaceChars l" using sp by (simp add: accept_eq)
              have a2: "(False, ?lw) = accept tokenIdentifierChars ?lw" using ni by (simp add: accept_eq)
              have a3: "(False, ?lw) = accept tokenDigits ?lw" using nd by (simp add: accept_eq)
              have a4: "(False, ?lw) = accept quoteChars ?lw" using nq by (simp add: accept_eq)
              have s5: "stateCode fmt_q l5 = (st, l')" using u' Some x nc by simp
              have g5': "agrees CodeMode l5" using g5 nc by simp
              from 1(2) [OF a1 refl a2 refl a3 refl a4 refl Some x [symmetric] nc s5 e5(1) b5 g5' 1(7)]
              show ?thesis .
            qed
          qed
        qed
      qed
    qed
  qed
qed


definition pre_kept :: "lexerStateFn \<Rightarrow> lexer \<Rightarrow> bool" where
  "pre_kept s l \<longleftrightarrow>
     agrees CodeMode l \<and>
     (case s of
        StateIdentifier \<Rightarrow> pos l = start l + 1 \<and> start l < length (input l) \<and>
          input l ! start l \<in> set tokenIdentifierChars
      | StateNumber \<Rightarrow> pos l = start l + 1 \<and> start l < length (input l) \<and>
          input l ! start l \<in> set tokenDigits
      | _ \<Rightarrow> True)"

lemma run_state_agrees:
  assumes "run_state fmt_q s l = Some (st, l')" and "pre_state fmt_q s l" and "pre_kept s l"
    and "\<not> errored l'"
  shows "case st of None \<Rightarrow> agrees TextMode l' | Some s' \<Rightarrow> pre_kept s' l'"
proof (cases s)
  case StateCode
  with assms have c: "stateCode fmt_q l = (st, l')" "start l = pos l"
    "pos l \<le> length (input l)" "agrees CodeMode l"
    by (simp_all add: run_state_def pre_state_def pre_kept_def good_def)
  from stateCode_agrees [OF c assms(4)] show ?thesis
    by (auto simp: pre_kept_def split: option.splits lexerStateFn.splits)
next
  case StateIdentifier
  with assms have c: "stateIdentifier l = Some (st, l')" "agrees CodeMode l"
    "pos l = start l + 1" "start l < length (input l)"
    "input l ! start l \<in> set tokenIdentifierChars"
    by (simp_all add: run_state_def pre_kept_def)
  from stateIdentifier_agrees [OF c] stateIdentifier_frame [OF c(1)] show ?thesis
    by (simp add: pre_kept_def)
next
  case StateNumber
  with assms have c: "stateNumber l = Some (st, l')" "agrees CodeMode l"
    "pos l = start l + 1" "start l < length (input l)"
    "input l ! start l \<in> set tokenDigits"
    by (simp_all add: run_state_def pre_kept_def)
  from stateNumber_agrees [OF c] stateNumber_frame [OF c(1)] show ?thesis
    by (simp add: pre_kept_def)
next
  case StateString
  with assms have c: "stateString l = (st, l')" "good fmt_q l" "\<not> errored l"
    "pos l = start l + 1" "input l ! start l = CHR 0x22" "agrees CodeMode l"
    by (simp_all add: run_state_def pre_state_def pre_kept_def)
  from stateString_good [OF c(1-5)] assms(4) have "st = Some StateCode"
    by (cases st) auto
  with stateString_agrees [OF _ c(2-6)] c(1) show ?thesis
    by (simp add: pre_kept_def)
qed

lemma tokenize_loop_agrees:
  "tokenize_loop fmt_q s l = Some l' \<Longrightarrow> pre_state fmt_q s l \<Longrightarrow> pre_kept s l \<Longrightarrow>
     \<not> errored l' \<Longrightarrow> agrees TextMode l'"
proof (induction fmt_q s l rule: tokenize_loop.induct)
  case (1 fmt_q s l)
  from run_state_total obtain st l1 where r: "run_state fmt_q s l = Some (st, l1)" by blast
  note g = run_state_good [OF r 1(3)]
  show ?case
  proof (cases st)
    case None
    with 1(2) r have "l' = l1" by (subst (asm) tokenize_loop.simps) simp
    with run_state_agrees [OF r 1(3,4)] 1(5) None show ?thesis by simp
  next
    case (Some s')
    with 1(2) r have t: "tokenize_loop fmt_q s' l1 = Some l'"
      by (subst (asm) tokenize_loop.simps) simp
    from g Some have p: "pre_state fmt_q s' l1" by simp
    then have "\<not> errored l1" by (simp add: pre_state_def)
    from run_state_agrees [OF r 1(3,4) this] Some have "pre_kept s' l1" by simp
    from 1(1) [OF r refl Some t p this 1(5)] show ?thesis .
  qed
qed

lemma render_emit_html:
  assumes "start l \<le> pos l"
  shows "render (tokens (if pos l > start l then emit TokenHTML l else l)) =
    render (tokens l) @ l_value l"
proof (cases "pos l > start l")
  case True
  then show ?thesis by (simp add: emit_def render_snoc TokenType_defs)
next
  case False
  with assms have "l_value l = []" by (simp add: l_value_def)
  with False show ?thesis by simp
qed

lemma run_agrees:
  "run fmt_q l = Some l' \<Longrightarrow> good fmt_q l \<Longrightarrow> \<not> errored l \<Longrightarrow>
     CHR 0x01 \<notin> set (input l) \<Longrightarrow> agrees_text l \<Longrightarrow> \<not> errored l' \<Longrightarrow>
     render (tokens l') = spec_kept TextMode (input l)"
proof (induction fmt_q l rule: run.induct)
  case (1 fmt_q l)
  let ?s = "input l"
  let ?l1 = "if pos l > start l then emit TokenHTML l else l"
  note h = good_emit_html [OF 1(5,6)]
  have b: "pos l \<le> length ?s" "start l \<le> pos l"
    using 1(5) by (simp_all add: good_def)
  note rh = render_emit_html [OF b(2)]
  note ag = 1(8) [unfolded agrees_text_def]
  consider (in_comment) "HasPrefix (drop (pos l) ?s) ''{#''"
    | (in_code) "\<not> HasPrefix (drop (pos l) ?s) ''{#''"
        "HasPrefix (drop (pos l) ?s) ''{{'' \<or> HasPrefix (drop (pos l) ?s) ''{%''"
    | (in_text) "\<not> HasPrefix (drop (pos l) ?s) ''{#''"
        "\<not> (HasPrefix (drop (pos l) ?s) ''{{'' \<or> HasPrefix (drop (pos l) ?s) ''{%'')"
    by blast
  then show ?case
  proof cases
    case in_comment
    note comment = in_comment
    let ?l2 = "?l1\<lparr>pos := pos ?l1 + 2, col := col ?l1 + 2\<rparr>"
    obtain b2 l3 where c: "comment_loop ?l2 = (b2, l3)" by (cases "comment_loop ?l2")
    have "pos l + 2 \<le> length ?s"
      using HasPrefix_length [OF comment b(1)] by simp
    then have g2: "good fmt_q ?l2"
      using h by (intro good_col good_pos) simp_all
    have e2: "\<not> errored ?l2" using h(5) by simp
    note g3 = comment_loop_good [OF c g2 e2]
    have i2: "input ?l2 = ?s" "pos ?l2 = pos l + 2" "tokens ?l2 = tokens ?l1"
      using h(3,4) by simp_all
    have b2: b2
    proof (rule ccontr)
      assume "\<not> b2"
      with 1(4) comment c have "l' = l3"
        by (subst (asm) run.simps) (simp add: Let_def)
      with g3 \<open>\<not> b2\<close> 1(9) show False by simp
    qed
    with 1(4) comment c have r: "run fmt_q (ignore l3) = Some l'"
      by (subst (asm) run.simps) (simp add: Let_def)
    have gi: "good fmt_q (ignore l3)" "\<not> errored (ignore l3)"
      using g3 b2 by (simp_all add: good_ignore)
    note sk = comment_loop_skip [OF c [unfolded eqTrueI [OF b2]], unfolded i2]
    have i3: "input (ignore l3) = ?s" using g3 i2 by simp
    have "agrees_text (ignore l3)"
      unfolding agrees_text_def
      using ag sk rh kept_text_comment [OF comment] g3 i2(1)
      by (simp add: l_value_def ignore_def)
    from 1(1) [OF comment refl c [symmetric] eqTrueI [OF b2] r gi _ this 1(9)] 1(7) i3
    show ?thesis by simp
  next
    case in_code
    note code = in_code
    from tokenize_loop_total obtain l2 where t: "tokenize fmt_q ?l1 = Some l2"
      unfolding tokenize_def by blast
    have ps: "pre_state fmt_q StateCode ?l1"
      using h by (simp add: pre_state_def)
    from tokenize_loop_good [OF t [unfolded tokenize_def] this]
    have g2: "good fmt_q l2" "input l2 = ?s" "\<not> errored l2 \<longrightarrow> start l2 = pos l2"
      using h(4) by simp_all
    have e2: "\<not> errored l2"
    proof
      assume "errored l2"
      with 1(4) code t have "l' = l2"
        by (subst (asm) run.simps) (simp add: Let_def)
      with \<open>errored l2\<close> 1(9) show False by simp
    qed
    with 1(4) code t have r: "run fmt_q l2 = Some l'"
      by (subst (asm) run.simps) (simp add: Let_def)
    have "agrees CodeMode ?l1"
      unfolding agrees_def h(2) h(4) rh
      using ag kept_code_brace [OF code(2,1)] by simp
    then have "pre_kept StateCode ?l1" by (simp add: pre_kept_def)
    from tokenize_loop_agrees [OF t [unfolded tokenize_def] ps this e2]
    have "agrees_text l2"
      using g2(3) e2 by (simp add: agrees_def agrees_text_def l_value_def)
    from 1(2) [OF code refl t e2 r g2(1) e2 _ this 1(9)] 1(7) g2(2)
    show ?thesis by simp
  next
    case in_text
    note tx = in_text
    let ?r = "fst (rune_at ?s (pos l))"
    let ?w = "snd (rune_at ?s (pos l))"
    let ?lw = "l\<lparr>width := ?w\<rparr>"
    let ?l2 = "if ?r = 0x0A then ?lw\<lparr>line := line ?lw + 1, col := 1\<rparr> else ?lw\<lparr>col := col ?lw + 1\<rparr>"
    let ?l3 = "?l2\<lparr>width := ?w, pos := pos l + ?w\<rparr>"
    have w: "pos l + ?w \<le> length ?s"
    proof (cases "pos l < length ?s")
      case True
      then show ?thesis using rune_at_width by blast
    next
      case False
      then show ?thesis using b by (simp add: rune_at_end)
    qed
    have "good fmt_q (?lw\<lparr>line := line ?lw + 1, col := 1\<rparr>)"
      using 1(5) by (intro good_col good_line) simp_all
    moreover have "good fmt_q (?lw\<lparr>col := col ?lw + 1\<rparr>)"
      using 1(5) by (intro good_col) simp_all
    ultimately have g2: "good fmt_q ?l2" by simp
    have s2: "pos ?l2 = pos l" "input ?l2 = ?s" "\<not> errored ?l2" "start ?l2 = start l"
      "tokens ?l2 = tokens l"
      using 1(6) by simp_all
    have g3: "good fmt_q ?l3" using g2 w s2 by (intro good_pos) simp_all
    have e3: "\<not> errored ?l3" "input ?l3 = ?s" "tokens ?l3 = tokens l" "start ?l3 = start l"
      "pos ?l3 = pos l + ?w"
      using s2 by simp_all
    have p: "(?r, ?lw) = peek l" by (simp add: peek_eq)
    have n: "(?r, ?l3) = l_next ?l2" using s2 by (simp add: l_next_eq)
    show ?thesis
    proof (cases "?r = EOF")
      case True
      have "\<not> pos l < length ?s"
      proof
        assume lt: "pos l < length ?s"
        from rune_at_EOF_byte [OF lt True] lt 1(7) show False by (metis nth_mem)
      qed
      then have pe: "pos l = length ?s" "?w = 0" using b by (simp_all add: rune_at_end)
      from True 1(4) tx s2 have "l' = (if pos ?l3 > start ?l3 then emit TokenHTML ?l3 else ?l3)"
        by (subst (asm) run.simps) (simp add: peek_eq l_next_eq Let_def cong: if_cong split del: if_split)
      then have "render (tokens l') = render (tokens ?l3) @ l_value ?l3"
        using render_emit_html [of ?l3] b(2) unfolding e3 by simp
      also have "\<dots> = render (tokens l) @ l_value l"
        unfolding e3 l_value_def e3 pe by simp
      finally show ?thesis using ag pe by (simp add: spec_kept.simps)
    next
      case False
      with 1(4) tx s2 have r: "run fmt_q ?l3 = Some l'"
        by (subst (asm) run.simps) (simp add: peek_eq l_next_eq Let_def cong: if_cong split del: if_split)
      have lt: "pos l < length ?s" using rune_at_not_EOF [OF False] .
      have "take (pos l + ?w - start l) (drop (start l) ?s) =
          l_value l @ take ?w (drop (pos l) ?s)"
      proof -
        have e: "pos l + ?w - start l = (pos l - start l) + ?w" using b(2) by simp
        have "drop (pos l - start l) (drop (start l) ?s) = drop (pos l) ?s"
          using b(2) by simp
        then show ?thesis
          unfolding e take_add l_value_def by simp
      qed
      then have "agrees_text ?l3"
        unfolding agrees_text_def l_value_def e3
        using ag kept_text_rune [OF lt tx(1)] tx(2) by (simp add: l_value_def)
      from 1(3) [OF tx p refl n False r g3 e3(1) _ this 1(9)] 1(7) e3(2)
      show ?thesis by simp
    qed
  qed
qed

lemma lex_kept:
  assumes "lex fmt_q nm inp = Some (Inr ts)" and "CHR 0x01 \<notin> set inp"
  shows "render ts = spec_kept TextMode inp"
proof -
  obtain l' where r: "run fmt_q (lexer_init nm inp) = Some l'" and g: "good fmt_q l'"
    by (rule lex_run)
  from assms(1) r have e: "\<not> errored l'" and ts: "ts = tokens l'"
    by (auto simp: lex_eq split: if_splits list.splits)
  have i: "good fmt_q (lexer_init nm inp)" "\<not> errored (lexer_init nm inp)"
    "agrees_text (lexer_init nm inp)" "input (lexer_init nm inp) = inp"
    by (simp_all add: good_def lexer_init_def render_def agrees_text_def l_value_def)
  from run_agrees [OF r i(1,2) _ i(3) e] assms(2) i(4) ts show ?thesis by simp
qed

subsection \<open>A string literal opened at the dispatch point\<close>

text \<open>
  \<open>stateString\<close> entered with no double quote ahead ends \<open>tokenize\<close> with the error token;
  so does \<open>stateCode\<close> at a double quote, after any blanks, from any state; \<open>run\<close> then
  returns at once and \<open>lex\<close> makes its error from that token.
\<close>

lemma tokenize_string_no_quote:
  assumes "CHR 0x22 \<notin> set (drop (pos l) (input l))"
  shows "\<exists>l'. stateString l = (None, l') \<and> tokenize_loop fmt_q StateString l = Some l' \<and>
     errored l' \<and>
     tokens l' = tokens l @ [\<lparr>Typ = TokenError, Val = ''Unexpected EOF, string not closed.'',
                               Line = startline l, Col = startcol l\<rparr>]"
proof -
  from stateString_no_quote [OF assms] obtain l' where s: "stateString l = (None, l')"
    and e: "errored l'"
      "tokens l' = tokens l @ [\<lparr>Typ = TokenError, Val = ''Unexpected EOF, string not closed.'',
                               Line = startline l, Col = startcol l\<rparr>]"
    by blast
  have "tokenize_loop fmt_q StateString l = Some l'"
    by (subst tokenize_loop.simps) (simp add: run_state_def s)
  with s e show ?thesis by blast
qed

lemma stateCode_blanks_quote:
  assumes "start l = pos l" and "drop (pos l) (input l) = bl @ CHR 0x22 # body"
    and "set bl \<subseteq> set tokenSpaceChars"
  shows "\<exists>la. stateCode fmt_q l = (Some StateString, la) \<and> tokens la = tokens l \<and>
     startline la = startline l \<and> startcol la = startcol l \<and> input la = input l \<and>
     drop (pos la) (input l) = body"
  using assms
proof (induction bl arbitrary: l)
  case Nil
  let ?s = "input l"
  have lt: "pos l < length ?s"
    using Nil(2) by (cases "pos l < length ?s") simp_all
  have q: "?s ! pos l = CHR 0x22"
    using Nil(2) lt by (metis Cons_nth_drop_Suc append_Nil list.inject)
  have d: "drop (Suc (pos l)) ?s = body"
    using Nil(2) lt by (metis Cons_nth_drop_Suc append_Nil list.inject)
  have r: "rune_at ?s (pos l) = (34, 1)"
    using rune_at_byte [OF lt] q by simp
  have i: "\<not> IndexRune_ge0 tokenSpaceChars 34" "\<not> IndexRune_ge0 tokenIdentifierChars 34"
    "\<not> IndexRune_ge0 tokenDigits 34" "IndexRune_ge0 quoteChars 34"
    by (simp_all add: IndexRune_ge0_def tokenSpaceChars_def tokenIdentifierChars_def
      tokenDigits_def quoteChars_def)
  have "stateCode fmt_q l = (Some StateString, l\<lparr>width := 1, pos := pos l + 1\<rparr>)"
    by (subst stateCode_unfold) (simp add: r i Let_def)
  with d show ?case by simp
next
  case (Cons b bl)
  let ?s = "input l"
  have lt: "pos l < length ?s"
    using Cons(3) by (cases "pos l < length ?s") simp_all
  have q: "?s ! pos l = b"
    using Cons(3) lt by (metis Cons_nth_drop_Suc append_Cons list.inject)
  have d: "drop (Suc (pos l)) ?s = bl @ CHR 0x22 # body"
    using Cons(3) lt by (metis Cons_nth_drop_Suc append_Cons list.inject)
  have bs: "?s ! pos l \<in> set tokenSpaceChars" using Cons(4) q by simp
  have ir: "IndexRune_ge0 tokenSpaceChars (fst (rune_at ?s (pos l)))"
    using IndexRune_ge0_byte(2) [OF lt ascii_set_space bs] .
  have w: "snd (rune_at ?s (pos l)) = 1"
    using IndexRune_ge0_byte(1) [OF lt ir] by simp
  let ?la = "l\<lparr>width := 1, pos := pos l + 1\<rparr>"
  let ?l1 = "ignore (if l_value ?la = [CHR 0x0A] then ?la\<lparr>line := line l + 1, col := 1\<rparr>
                    else ?la\<lparr>col := col l + 1\<rparr>)"
  have u: "stateCode fmt_q l = stateCode fmt_q ?l1"
    using ir w by (subst stateCode_unfold) (simp add: Let_def cong: if_cong split del: if_split)
  have e1: "start ?l1 = pos ?l1" "pos ?l1 = Suc (pos l)" "input ?l1 = ?s" "tokens ?l1 = tokens l"
    "startline ?l1 = startline l" "startcol ?l1 = startcol l"
    by (simp_all add: ignore_def split: if_splits)
  have d1: "drop (pos ?l1) (input ?l1) = bl @ CHR 0x22 # body" unfolding e1 using d .
  from Cons(1) [OF e1(1) d1] Cons(4) show ?case
    unfolding u e1 by simp
qed

lemma tokenize_blanks_quote:
  assumes "start l = pos l" and "drop (pos l) (input l) = bl @ CHR 0x22 # body"
    and "set bl \<subseteq> set tokenSpaceChars" and "CHR 0x22 \<notin> set body"
  shows "\<exists>l'. tokenize fmt_q l = Some l' \<and> errored l' \<and>
     tokens l' = tokens l @ [\<lparr>Typ = TokenError, Val = ''Unexpected EOF, string not closed.'',
                               Line = startline l, Col = startcol l\<rparr>]"
proof -
  from stateCode_blanks_quote [OF assms(1-3), of fmt_q]
  obtain la where la: "stateCode fmt_q l = (Some StateString, la)" "tokens la = tokens l"
    "startline la = startline l" "startcol la = startcol l" "input la = input l"
    "drop (pos la) (input l) = body"
    by blast
  have "CHR 0x22 \<notin> set (drop (pos la) (input la))" using la(5,6) assms(4) by simp
  from tokenize_string_no_quote [OF this, of fmt_q] la(2,3,4)
  obtain l' where l': "tokenize_loop fmt_q StateString la = Some l'" "errored l'"
    "tokens l' = tokens l @ [\<lparr>Typ = TokenError, Val = ''Unexpected EOF, string not closed.'',
                               Line = startline l, Col = startcol l\<rparr>]"
    by auto
  have "tokenize fmt_q l = Some l'"
    unfolding tokenize_def by (subst tokenize_loop.simps) (simp add: run_state_def la(1) l'(1))
  with l' show ?thesis by blast
qed

lemma lex_run_error:
  assumes "run fmt_q (lexer_init nm inp) = Some l1" and "errored l1"
    and "tokens l1 = ts @ [\<lparr>Typ = t, Val = msg, Line = ln, Col = cl\<rparr>]"
  shows "lex fmt_q nm inp =
    Some (Inl (''[Lexer Error in '' @ nm @ '' (Line '' @ fmt_d (int ln) @ '' Col ''
               @ fmt_d (int cl) @ '')]: '' @ msg))"
proof -
  have l: "last (tokens l1) = \<lparr>Typ = t, Val = msg, Line = ln, Col = cl\<rparr>"
    using assms(3) by simp
  have "tokens l1 \<noteq> []" using assms(3) by simp
  then obtain t0 ts0 where c: "tokens l1 = t0 # ts0"
    by (cases "tokens l1") simp_all
  have "lex fmt_q nm inp =
      Some (Inl (''[Lexer Error in '' @ nm @ '' (Line '' @ fmt_d (int (Line (last (tokens l1))))
                 @ '' Col '' @ fmt_d (int (Col (last (tokens l1)))) @ '')]: ''
                 @ Val (last (tokens l1))))"
    unfolding lex_eq assms(1) using assms(2) by (simp add: c)
  then show ?thesis unfolding l by simp
qed

lemma run_tokenize_error:
  assumes "HasPrefix (drop (pos l) (input l)) ''{{'' \<or> HasPrefix (drop (pos l) (input l)) ''{%''"
    and "tokenize fmt_q (if pos l > start l then emit TokenHTML l else l) = Some l2"
    and "errored l2"
  shows "run fmt_q l = Some l2"
proof -
  have "\<not> HasPrefix (drop (pos l) (input l)) ''{#''"
    using assms(1) by (auto simp: HasPrefix_def prefix_def)
  then show ?thesis
    using assms by (subst run.simps) (simp add: Let_def)
qed

lemma rune_at_before_ascii:
  assumes "p < k" and "(of_char (s ! k) :: nat) < 0x80"
  shows "p + snd (rune_at s p) \<le> k"
proof (rule ccontr)
  assume "\<not> p + snd (rune_at s p) \<le> k"
  then have "k < p + snd (rune_at s p)" by simp
  from rune_at_continuation [OF assms(1) this] assms(2) show False by simp
qed

lemma run_text_to:
  assumes "k < length (input l)" and "pos l \<le> k" and "(of_char (input l ! k) :: nat) < 0x80"
    and "\<forall>i. pos l \<le> i \<and> i < k \<longrightarrow> input l ! i \<noteq> CHR ''{'' \<and> input l ! i \<noteq> CHR 0x01"
  shows "\<exists>wd ln cn. run fmt_q l = run fmt_q (l\<lparr>width := wd, pos := k, line := ln, col := cn\<rparr>)"
  using assms
proof (induction "k - pos l" arbitrary: l rule: less_induct)
  case less
  show ?case
  proof (cases "pos l = k")
    case True
    have "l\<lparr>width := width l, pos := k, line := line l, col := col l\<rparr> = l"
      using True by simp
    then show ?thesis by metis
  next
    case False
    with less(3) have lt: "pos l < k" by simp
    have pl: "pos l < length (input l)" using lt less(2) by simp
    let ?r = "fst (rune_at (input l) (pos l))"
    let ?w = "snd (rune_at (input l) (pos l))"
    let ?lw = "l\<lparr>width := ?w\<rparr>"
    let ?l2 = "if ?r = 0x0A then ?lw\<lparr>line := line ?lw + 1, col := 1\<rparr> else ?lw\<lparr>col := col ?lw + 1\<rparr>"
    let ?l3 = "?l2\<lparr>width := ?w, pos := pos l + ?w\<rparr>"
    have b: "input l ! pos l \<noteq> CHR ''{''" "input l ! pos l \<noteq> CHR 0x01"
      using less(5) lt by auto
    have np: "\<not> HasPrefix (drop (pos l) (input l)) ''{#''"
      "\<not> HasPrefix (drop (pos l) (input l)) ''{{''" "\<not> HasPrefix (drop (pos l) (input l)) ''{%''"
      using HasPrefix_Cons_byte [of "pos l" "input l" "CHR ''{''"] b(1) by blast+
    have ne: "?r \<noteq> EOF" using rune_at_EOF_byte [OF pl] b(2) by blast
    have s2: "pos ?l2 = pos l" "input ?l2 = input l" by simp_all
    have r: "run fmt_q l = run fmt_q ?l3"
      using np ne s2
      by (subst run.simps) (simp add: peek_eq l_next_eq Let_def cong: if_cong split del: if_split)
    have w: "1 \<le> ?w" "pos l + ?w \<le> k"
      using rune_at_width [OF pl] rune_at_before_ascii [OF lt less(4)] by simp_all
    have f: "input ?l3 = input l" "pos ?l3 = pos l + ?w" by simp_all
    have "k - pos ?l3 < k - pos l" using w lt f(2) by linarith
    from less(1) [OF this] less(2,4,5) w
    obtain wd ln cn where
      "run fmt_q ?l3 = run fmt_q (?l3\<lparr>width := wd, pos := k, line := ln, col := cn\<rparr>)"
      unfolding f by auto
    moreover have "?l3\<lparr>width := wd, pos := k, line := ln, col := cn\<rparr> =
        l\<lparr>width := wd, pos := k, line := ln, col := cn\<rparr>"
      by simp
    ultimately show ?thesis using r by metis
  qed
qed

lemma run_tag_string:
  assumes "start l \<le> pos l" and "drop (pos l) (input l) = opn @ bl @ CHR 0x22 # body"
    and "opn = ''{{'' \<or> opn = ''{%''" and "set bl \<subseteq> set tokenSpaceChars"
    and "CHR 0x22 \<notin> set body"
  shows "\<exists>l' ts ln cl. run fmt_q l = Some l' \<and> errored l' \<and>
     tokens l' = ts @ [\<lparr>Typ = TokenError, Val = ''Unexpected EOF, string not closed.'',
                        Line = ln, Col = cl\<rparr>]"
proof -
  let ?s = "input l"
  let ?l1 = "if pos l > start l then emit TokenHTML l else l"
  have hp: "HasPrefix (drop (pos l) ?s) opn" unfolding assms(2) HasPrefix_def by simp
  have nc: "\<not> HasPrefix (drop (pos l) ?s) ''{#''"
    unfolding assms(2) HasPrefix_def using assms(3) by auto
  have oc: "HasPrefix (drop (pos l) ?s) ''{{'' \<or> HasPrefix (drop (pos l) ?s) ''{%''"
    using hp assms(3) by auto
  have e1: "start ?l1 = pos ?l1" "pos ?l1 = pos l" "input ?l1 = ?s"
    using assms(1) by simp_all
  have os: "opn \<in> set tokenSymbols" "length opn = 2" "\<not> (opn = ''%}'' \<or> opn = ''}}'')"
    using assms(3) by (auto simp: tokenSymbols_def)
  have f: "find (\<lambda>sy. HasPrefix (drop (pos ?l1) (input ?l1)) sy) tokenSymbols = Some opn"
    unfolding e1 using two_char_first [OF os(1,2) hp] .
  let ?l2 = "?l1\<lparr>width := 1, pos := pos ?l1 + length opn, col := col ?l1 + length opn,
                tokens := tokens ?l1 @ [\<lparr>Typ = TokenSymbol, Val = opn,
                                        Line = startline ?l1, Col = startcol ?l1\<rparr>],
                start := pos ?l1 + length opn, startline := line ?l1,
                startcol := col ?l1 + length opn\<rparr>"
  have sc: "stateCode fmt_q ?l1 = stateCode fmt_q ?l2"
    using stateCode_symbol [OF e1(1) f, of fmt_q] os(3) by (simp add: Let_def)
  have e2: "start ?l2 = pos ?l2" "input ?l2 = ?s" "pos ?l2 = pos l + 2"
    using os(2) by simp_all
  have "drop (pos l + 2) ?s = drop 2 (drop (pos l) ?s)" by (simp add: add.commute)
  then have d2: "drop (pos ?l2) (input ?l2) = bl @ CHR 0x22 # body"
    unfolding e2 assms(2) using os(2) by simp
  from tokenize_blanks_quote [OF e2(1) d2 assms(4,5), of fmt_q]
  obtain l' where l': "tokenize fmt_q ?l2 = Some l'" "errored l'"
    "tokens l' = tokens ?l2 @ [\<lparr>Typ = TokenError, Val = ''Unexpected EOF, string not closed.'',
                               Line = startline ?l2, Col = startcol ?l2\<rparr>]"
    by blast
  have "tokenize_loop fmt_q StateCode ?l1 = tokenize_loop fmt_q StateCode ?l2"
    by (subst tokenize_loop.simps, subst (2) tokenize_loop.simps) (simp add: run_state_def sc)
  with l'(1) have t1: "tokenize fmt_q ?l1 = Some l'" by (simp add: tokenize_def)
  have "run fmt_q l = Some l'"
    using nc oc t1 l'(2) by (subst run.simps) (simp add: Let_def)
  with l'(2,3) show ?thesis by blast
qed

lemma lex_text_tag_string:
  assumes "\<forall>c \<in> set htm. c \<noteq> CHR ''{'' \<and> c \<noteq> CHR 0x01"
    and "opn = ''{{'' \<or> opn = ''{%''" and "set bl \<subseteq> set tokenSpaceChars"
    and "CHR 0x22 \<notin> set body"
  shows "\<exists>ln cl. lex fmt_q nm (htm @ opn @ bl @ CHR 0x22 # body) =
    Some (Inl (''[Lexer Error in '' @ nm @ '' (Line '' @ fmt_d (int ln) @ '' Col ''
               @ fmt_d (int cl) @ '')]: Unexpected EOF, string not closed.''))"
proof -
  let ?inp = "htm @ opn @ bl @ CHR 0x22 # body"
  let ?l = "lexer_init nm ?inp"
  let ?k = "length htm"
  have s: "pos ?l = 0" "start ?l = 0" "input ?l = ?inp" by (simp_all add: lexer_init_def)
  have k: "?k < length ?inp" "?inp ! ?k = CHR ''{''"
    using assms(2) by (auto simp: nth_append)
  have a: "(of_char (input ?l ! ?k) :: nat) < 0x80" unfolding s k by simp
  have t: "\<forall>i. pos ?l \<le> i \<and> i < ?k \<longrightarrow> input ?l ! i \<noteq> CHR ''{'' \<and> input ?l ! i \<noteq> CHR 0x01"
    unfolding s using assms(1) by (simp add: nth_append)
  from run_text_to [of ?k ?l fmt_q, OF _ _ a t] k(1)
  obtain wd ln cn where r: "run fmt_q ?l = run fmt_q (?l\<lparr>width := wd, pos := ?k, line := ln, col := cn\<rparr>)"
    unfolding s by auto
  let ?lk = "?l\<lparr>width := wd, pos := ?k, line := ln, col := cn\<rparr>"
  have "drop (pos ?lk) (input ?lk) = opn @ bl @ CHR 0x22 # body"
    by (simp add: lexer_init_def)
  from run_tag_string [OF _ this assms(2,3,4), of fmt_q]
  obtain l' ts ln' cl' where "run fmt_q ?lk = Some l'" "errored l'"
    "tokens l' = ts @ [\<lparr>Typ = TokenError, Val = ''Unexpected EOF, string not closed.'',
                        Line = ln', Col = cl'\<rparr>]"
    by (auto simp: lexer_init_def)
  with r lex_run_error [of fmt_q nm ?inp l' ts TokenError
      "''Unexpected EOF, string not closed.''" ln' cl']
  show ?thesis by auto
qed

section \<open>Claims\<close>

text \<open>
  A formatter for the closed examples: \<open>%q\<close> of a printable ASCII rune other than the
  single quote and the backslash is the character between single quotes.
\<close>

definition quote_ascii :: "rune \<Rightarrow> string" where
  "quote_ascii r = [CHR 0x27, char_of r, CHR 0x27]"

lemma keyword_loop_set:
  "keyword_loop tokenKeywords v \<longleftrightarrow> v \<in> {''in'', ''and'', ''or'', ''not'', ''true'', ''false''}"
  by (auto simp: tokenKeywords_def)

text \<open>
  C1: for every input that scans successfully, the texts of the tokens in order, with a
  double quote put back before and after the text of each String token, give back the
  input. As stated this fails, by the rules of the specification itself: the blanks
  between the tokens of a tag and the comments are discarded (\<open>{{ a }}\<close> gives \<open>{{a}}\<close>).
  What holds, for every input that scans successfully and has no byte 1: the texts so
  concatenated are exactly \<open>spec_kept TextMode inp\<close>, the input without its comments and
  without the blanks that stand in a tag outside a string literal. Every other character,
  the blanks of the text and of the string literals included, is given back in its place.
  \<open>spec_kept\<close> only deletes, so the round trip of the claim is exact on the inputs where
  it has nothing to delete, and on no others: so on \<open>x{{a.b|c:"d e"}}y\<close> and on \<open>a{b\<close>; and
  a text without \<open>{\<close> always scans and is given back.
\<close>

theorem C1_token_texts_kept:
  "(lex fmt_q nm inp = Some (Inr ts) \<and> CHR 0x01 \<notin> set inp \<longrightarrow>
      render ts = spec_kept TextMode inp \<and>
      (render ts = inp \<longleftrightarrow> spec_kept TextMode inp = inp)) \<and>
   subseq (spec_kept TextMode inp) inp \<and>
   ((\<forall>c \<in> set inp. c \<noteq> CHR ''{'' \<and> c \<noteq> CHR 0x01) \<longrightarrow>
      (\<exists>ts'. lex fmt_q nm inp = Some (Inr ts') \<and> render ts' = inp)) \<and>
   (\<exists>ts'. lex fmt_q nm (''x{{a.b|c:'' @ CHR 0x22 # ''d e'' @ CHR 0x22 # ''}}y'') = Some (Inr ts') \<and>
      render ts' = ''x{{a.b|c:'' @ CHR 0x22 # ''d e'' @ CHR 0x22 # ''}}y'') \<and>
   (\<exists>ts'. lex fmt_q nm ''a{b'' = Some (Inr ts') \<and> render ts' = ''a{b'') \<and>
   spec_kept TextMode ''{{ a }}'' = ''{{a}}'' \<and>
   spec_kept TextMode ''A{# note #}B'' = ''AB''"
proof -
  have a: "\<exists>ts'. lex fmt_q nm inp = Some (Inr ts') \<and> render ts' = inp"
    if "\<forall>c \<in> set inp. c \<noteq> CHR ''{'' \<and> c \<noteq> CHR 0x01"
    using lex_pure_text [OF that, of fmt_q nm]
    by (cases "inp = []") (simp_all add: render_def TokenType_defs)
  have "lex fmt_q nm (''x{{a.b|c:'' @ CHR 0x22 # ''d e'' @ CHR 0x22 # ''}}y'') =
    Some (Inr [\<lparr>Typ = TokenHTML, Val = ''x'', Line = 1, Col = 1\<rparr>,
               \<lparr>Typ = TokenSymbol, Val = ''{{'', Line = 1, Col = 2\<rparr>,
               \<lparr>Typ = TokenIdentifier, Val = ''a'', Line = 1, Col = 4\<rparr>,
               \<lparr>Typ = TokenSymbol, Val = ''.'', Line = 1, Col = 5\<rparr>,
               \<lparr>Typ = TokenIdentifier, Val = ''b'', Line = 1, Col = 6\<rparr>,
               \<lparr>Typ = TokenSymbol, Val = ''|'', Line = 1, Col = 7\<rparr>,
               \<lparr>Typ = TokenIdentifier, Val = ''c'', Line = 1, Col = 8\<rparr>,
               \<lparr>Typ = TokenSymbol, Val = '':'', Line = 1, Col = 9\<rparr>,
               \<lparr>Typ = TokenString, Val = ''d e'', Line = 1, Col = 10\<rparr>,
               \<lparr>Typ = TokenSymbol, Val = ''}}'', Line = 1, Col = 13\<rparr>,
               \<lparr>Typ = TokenHTML, Val = ''y'', Line = 1, Col = 15\<rparr>])"
    by code_simp
  then have b: "\<exists>ts'. lex fmt_q nm (''x{{a.b|c:'' @ CHR 0x22 # ''d e'' @ CHR 0x22 # ''}}y'') = Some (Inr ts') \<and>
      render ts' = ''x{{a.b|c:'' @ CHR 0x22 # ''d e'' @ CHR 0x22 # ''}}y''"
    by (simp add: render_def TokenType_defs)
  have "lex fmt_q nm ''a{b'' = Some (Inr [\<lparr>Typ = TokenHTML, Val = ''a{b'', Line = 1, Col = 1\<rparr>])"
    by code_simp
  then have c: "\<exists>ts'. lex fmt_q nm ''a{b'' = Some (Inr ts') \<and> render ts' = ''a{b''"
    by (simp add: render_def TokenType_defs)
  have d: "spec_kept TextMode ''{{ a }}'' = ''{{a}}''" by code_simp
  have e: "spec_kept TextMode ''A{# note #}B'' = ''AB''" by code_simp
  show ?thesis
    using lex_kept [of fmt_q nm inp ts] kept_subseq [of TextMode inp] a b c d e by auto
qed

theorem C1_token_texts_kept_witness:
  "lex quote_ascii ''page'' (''A{{ '' @ CHR 0x22 # ''b c'' @ CHR 0x22 # '' }}{# d #}'') =
     Some (Inr [\<lparr>Typ = TokenHTML, Val = ''A'', Line = 1, Col = 1\<rparr>,
                \<lparr>Typ = TokenSymbol, Val = ''{{'', Line = 1, Col = 2\<rparr>,
                \<lparr>Typ = TokenString, Val = ''b c'', Line = 1, Col = 4\<rparr>,
                \<lparr>Typ = TokenSymbol, Val = ''}}'', Line = 1, Col = 8\<rparr>]) \<and>
   render [\<lparr>Typ = TokenHTML, Val = ''A'', Line = 1, Col = 1\<rparr>,
           \<lparr>Typ = TokenSymbol, Val = ''{{'', Line = 1, Col = 2\<rparr>,
           \<lparr>Typ = TokenString, Val = ''b c'', Line = 1, Col = 4\<rparr>,
           \<lparr>Typ = TokenSymbol, Val = ''}}'', Line = 1, Col = 8\<rparr>] =
     spec_kept TextMode (''A{{ '' @ CHR 0x22 # ''b c'' @ CHR 0x22 # '' }}{# d #}'') \<and>
   spec_kept TextMode (''A{{ '' @ CHR 0x22 # ''b c'' @ CHR 0x22 # '' }}{# d #}'') =
     ''A{{'' @ CHR 0x22 # ''b c'' @ CHR 0x22 # ''}}''"
proof -
  have ev: "lex quote_ascii ''page'' (''A{{ '' @ CHR 0x22 # ''b c'' @ CHR 0x22 # '' }}{# d #}'') =
     Some (Inr [\<lparr>Typ = TokenHTML, Val = ''A'', Line = 1, Col = 1\<rparr>,
                \<lparr>Typ = TokenSymbol, Val = ''{{'', Line = 1, Col = 2\<rparr>,
                \<lparr>Typ = TokenString, Val = ''b c'', Line = 1, Col = 4\<rparr>,
                \<lparr>Typ = TokenSymbol, Val = ''}}'', Line = 1, Col = 8\<rparr>])"
    by code_simp
  have k: "spec_kept TextMode (''A{{ '' @ CHR 0x22 # ''b c'' @ CHR 0x22 # '' }}{# d #}'') =
     ''A{{'' @ CHR 0x22 # ''b c'' @ CHR 0x22 # ''}}''"
    by code_simp
  have "render [\<lparr>Typ = TokenHTML, Val = ''A'', Line = 1, Col = 1\<rparr>,
           \<lparr>Typ = TokenSymbol, Val = ''{{'', Line = 1, Col = 2\<rparr>,
           \<lparr>Typ = TokenString, Val = ''b c'', Line = 1, Col = 4\<rparr>,
           \<lparr>Typ = TokenSymbol, Val = ''}}'', Line = 1, Col = 8\<rparr>] =
     spec_kept TextMode (''A{{ '' @ CHR 0x22 # ''b c'' @ CHR 0x22 # '' }}{# d #}'')"
    using C1_token_texts_kept
      [where fmt_q = quote_ascii and nm = "''page''"
         and inp = "''A{{ '' @ CHR 0x22 # ''b c'' @ CHR 0x22 # '' }}{# d #}''"
         and ts = "[\<lparr>Typ = TokenHTML, Val = ''A'', Line = 1, Col = 1\<rparr>,
                \<lparr>Typ = TokenSymbol, Val = ''{{'', Line = 1, Col = 2\<rparr>,
                \<lparr>Typ = TokenString, Val = ''b c'', Line = 1, Col = 4\<rparr>,
                \<lparr>Typ = TokenSymbol, Val = ''}}'', Line = 1, Col = 8\<rparr>]"] ev
    by simp
  with ev k show ?thesis by simp
qed

text \<open>
  The claim as stated fails on \<open>{{ a }}\<close>: the two blanks are in no token.
\<close>

theorem C1_round_trip_counterexample:
  "lex quote_ascii ''page'' ''{{ a }}'' =
     Some (Inr [\<lparr>Typ = TokenSymbol, Val = ''{{'', Line = 1, Col = 1\<rparr>,
                \<lparr>Typ = TokenIdentifier, Val = ''a'', Line = 1, Col = 3\<rparr>,
                \<lparr>Typ = TokenSymbol, Val = ''}}'', Line = 1, Col = 5\<rparr>]) \<and>
   render [\<lparr>Typ = TokenSymbol, Val = ''{{'', Line = 1, Col = 1\<rparr>,
           \<lparr>Typ = TokenIdentifier, Val = ''a'', Line = 1, Col = 3\<rparr>,
           \<lparr>Typ = TokenSymbol, Val = ''}}'', Line = 1, Col = 5\<rparr>] \<noteq> ''{{ a }}''"
proof -
  have "lex quote_ascii ''page'' ''{{ a }}'' =
     Some (Inr [\<lparr>Typ = TokenSymbol, Val = ''{{'', Line = 1, Col = 1\<rparr>,
                \<lparr>Typ = TokenIdentifier, Val = ''a'', Line = 1, Col = 3\<rparr>,
                \<lparr>Typ = TokenSymbol, Val = ''}}'', Line = 1, Col = 5\<rparr>])"
    by code_simp
  then show ?thesis by (simp add: render_def TokenType_defs)
qed

text \<open>
  C2: for the input \<open>A{# note #}B\<close> the scan succeeds with exactly two HTML tokens, \<open>A\<close> and
  \<open>B\<close>, and no token for the comment. The claim gives the second token the position of
  the character \<open>B\<close>, line 1 and column 12; the code records line 1 and column 2, the
  column where the comment starts, because \<open>ignore\<close> moves \<open>start\<close> without refreshing
  \<open>startline\<close> and \<open>startcol\<close>.
\<close>

theorem C2_comment_tokens:
  "lex fmt_q nm ''A{# note #}B'' =
    Some (Inr [\<lparr>Typ = TokenHTML, Val = ''A'', Line = 1, Col = 1\<rparr>,
               \<lparr>Typ = TokenHTML, Val = ''B'', Line = 1, Col = 2\<rparr>])"
  by code_simp

theorem C2_comment_tokens_witness:
  "lex quote_ascii ''page'' ''A{# note #}B'' =
    Some (Inr [\<lparr>Typ = TokenHTML, Val = ''A'', Line = 1, Col = 1\<rparr>,
               \<lparr>Typ = TokenHTML, Val = ''B'', Line = 1, Col = 2\<rparr>])"
  using C2_comment_tokens [of quote_ascii "''page''"] .

text \<open>
  C3: every token of a successful scan carries the line and column of its first
  character. The code does not: for \<open>{{ name }}\<close> the identifier \<open>name\<close> starts at column 4
  and the closing \<open>}}\<close> at column 9, and the tokens carry columns 3 and 8, the columns of
  the blanks skipped before them (\<open>ignore\<close> does not refresh \<open>startcol\<close>); after the
  keyword of \<open>{{and x}}\<close> the column is not advanced at all, and \<open>x\<close>, at column 7, carries
  column 3.
\<close>

theorem C3_columns_after_blank:
  "lex fmt_q nm ''{{ name }}'' =
    Some (Inr [\<lparr>Typ = TokenSymbol, Val = ''{{'', Line = 1, Col = 1\<rparr>,
               \<lparr>Typ = TokenIdentifier, Val = ''name'', Line = 1, Col = 3\<rparr>,
               \<lparr>Typ = TokenSymbol, Val = ''}}'', Line = 1, Col = 8\<rparr>]) \<and>
   lex fmt_q nm ''{{and x}}'' =
    Some (Inr [\<lparr>Typ = TokenSymbol, Val = ''{{'', Line = 1, Col = 1\<rparr>,
               \<lparr>Typ = TokenKeyword, Val = ''and'', Line = 1, Col = 3\<rparr>,
               \<lparr>Typ = TokenIdentifier, Val = ''x'', Line = 1, Col = 3\<rparr>,
               \<lparr>Typ = TokenSymbol, Val = ''}}'', Line = 1, Col = 5\<rparr>])"
  by code_simp

theorem C3_columns_after_blank_witness:
  "lex quote_ascii ''page'' ''{{ name }}'' =
    Some (Inr [\<lparr>Typ = TokenSymbol, Val = ''{{'', Line = 1, Col = 1\<rparr>,
               \<lparr>Typ = TokenIdentifier, Val = ''name'', Line = 1, Col = 3\<rparr>,
               \<lparr>Typ = TokenSymbol, Val = ''}}'', Line = 1, Col = 8\<rparr>])"
  using C3_columns_after_blank [of quote_ascii "''page''"] by (rule conjunct1)

text \<open>
  C4: in code mode, when a symbol of the table is a prefix of the remaining input (the
  first character of a symbol is no blank, identifier character, digit or double quote),
  \<open>stateCode\<close> consumes the first such entry of the table, in the order of the table, and
  emits it as one Symbol token whose text is that entry; it then returns for \<open>%}\<close> and
  \<open>}}\<close> and goes on otherwise. A symbol of two characters that is a prefix of the
  remaining input is the entry found, so it is never emitted as two symbols of one
  character.
\<close>

theorem C4_first_symbol_of_table:
  "tokenSymbols =
     [''=='', ''>='', ''<='', ''&&'', ''||'', ''{{'', ''}}'', ''{%'', ''%}'', ''!='', ''<>'',
      ''('', '')'', ''+'', ''-'', ''*'', ''<'', ''>'', ''/'', ''^'', '','', ''.'', ''!'', ''|'',
      '':'', ''=''] \<and>
   (start l = pos l \<and>
    find (\<lambda>sy. HasPrefix (drop (pos l) (input l)) sy) tokenSymbols = Some sy \<longrightarrow>
      stateCode fmt_q l =
        (let l' = l\<lparr>width := 1, pos := pos l + length sy, col := col l + length sy,
                    tokens := tokens l @ [\<lparr>Typ = TokenSymbol, Val = sy,
                                            Line = startline l, Col = startcol l\<rparr>],
                    start := pos l + length sy, startline := line l,
                    startcol := col l + length sy\<rparr>
         in if sy = ''%}'' \<or> sy = ''}}'' then (None, l') else stateCode fmt_q l')) \<and>
   (s2 \<in> set tokenSymbols \<and> length s2 = 2 \<and> HasPrefix rem s2 \<longrightarrow>
      find (\<lambda>sy. HasPrefix rem sy) tokenSymbols = Some s2)"
  using stateCode_symbol [of l sy fmt_q] two_char_first [of s2 rem]
  by (simp add: tokenSymbols_def [symmetric])

theorem C4_first_symbol_of_table_witness:
  "stateCode quote_ascii
      \<lparr>name = ''page'', input = ''{{ a <= b }}'', start = 5, pos = 5, width = 1, tokens = [],
       errored = False, startline = 1, startcol = 5, line = 1, col = 6\<rparr> =
    stateCode quote_ascii
      \<lparr>name = ''page'', input = ''{{ a <= b }}'', start = 7, pos = 7, width = 1,
       tokens = [\<lparr>Typ = TokenSymbol, Val = ''<='', Line = 1, Col = 5\<rparr>],
       errored = False, startline = 1, startcol = 8, line = 1, col = 8\<rparr> \<and>
   find (\<lambda>sy. HasPrefix ''<= b }}'' sy) tokenSymbols = Some ''<=''"
  using C4_first_symbol_of_table
    [of "\<lparr>name = ''page'', input = ''{{ a <= b }}'', start = 5, pos = 5, width = 1, tokens = [],
          errored = False, startline = 1, startcol = 5, line = 1, col = 6\<rparr>"
        "''<=''" quote_ascii "''<=''" "''<= b }}''"]
  by (simp add: tokenSymbols_def HasPrefix_def Let_def)

text \<open>
  C5: \<open>stateIdentifier\<close> consumes the longest run of identifier characters and then the
  longest run of digits; the token it emits is a Keyword exactly when its text is one of
  \<open>in\<close>, \<open>and\<close>, \<open>or\<close>, \<open>not\<close>, \<open>true\<close>, \<open>false\<close>, and an Identifier otherwise. The input
  \<open>{% if a and b %}\<close> scans to Symbol \<open>{%\<close>, Identifier \<open>if\<close>, Identifier \<open>a\<close>, Keyword \<open>and\<close>,
  Identifier \<open>b\<close>, Symbol \<open>%}\<close>.
\<close>

theorem C5_keyword_or_identifier:
  "(let p1 = pos l + run_len tokenIdentifierChars (input l) (pos l);
        p2 = p1 + run_len tokenDigits (input l) p1;
        v = take (p2 - start l) (drop (start l) (input l));
        t = (if v \<in> {''in'', ''and'', ''or'', ''not'', ''true'', ''false''}
             then TokenKeyword else TokenIdentifier)
    in \<exists>l'. stateIdentifier l = Some (Some StateCode, l') \<and>
         tokens l' = tokens l @ [\<lparr>Typ = t, Val = v, Line = startline l, Col = startcol l\<rparr>] \<and>
         start l' = p2 \<and> pos l' = p2) \<and>
   (\<exists>ts. lex fmt_q nm ''{% if a and b %}'' = Some (Inr ts) \<and>
      map (\<lambda>t. (Typ t, Val t)) ts =
        [(TokenSymbol, ''{%''), (TokenIdentifier, ''if''), (TokenIdentifier, ''a''),
         (TokenKeyword, ''and''), (TokenIdentifier, ''b''), (TokenSymbol, ''%}'')])"
proof -
  have "lex fmt_q nm ''{% if a and b %}'' =
    Some (Inr [\<lparr>Typ = TokenSymbol, Val = ''{%'', Line = 1, Col = 1\<rparr>,
               \<lparr>Typ = TokenIdentifier, Val = ''if'', Line = 1, Col = 3\<rparr>,
               \<lparr>Typ = TokenIdentifier, Val = ''a'', Line = 1, Col = 6\<rparr>,
               \<lparr>Typ = TokenKeyword, Val = ''and'', Line = 1, Col = 8\<rparr>,
               \<lparr>Typ = TokenIdentifier, Val = ''b'', Line = 1, Col = 9\<rparr>,
               \<lparr>Typ = TokenSymbol, Val = ''%}'', Line = 1, Col = 11\<rparr>])"
    by code_simp
  then show ?thesis
    by (simp add: stateIdentifier_eq keyword_loop_set Let_def emit_def l_value_def)
qed

theorem C5_keyword_or_identifier_witness:
  "\<exists>l'. stateIdentifier
      \<lparr>name = ''page'', input = ''{{ and1 }}'', start = 3, pos = 4, width = 1, tokens = [],
       errored = False, startline = 1, startcol = 3, line = 1, col = 4\<rparr> =
        Some (Some StateCode, l') \<and>
     tokens l' = [\<lparr>Typ = TokenIdentifier, Val = ''and1'', Line = 1, Col = 3\<rparr>] \<and>
     start l' = 7 \<and> pos l' = 7"
  using C5_keyword_or_identifier
    [of "\<lparr>name = ''page'', input = ''{{ and1 }}'', start = 3, pos = 4, width = 1, tokens = [],
          errored = False, startline = 1, startcol = 3, line = 1, col = 4\<rparr>" quote_ascii "''page''"]
  by (simp add: Let_def run_len_def tokenIdentifierChars_def tokenDigits_def)

text \<open>
  C6: \<open>stateNumber\<close> consumes the longest run of decimal digits and nothing else, and
  emits it as a Number token; \<open>{{ 4.2 }}\<close> scans to Symbol \<open>{{\<close>, Number \<open>4\<close>, Symbol \<open>.\<close>,
  Number \<open>2\<close>, Symbol \<open>}}\<close>.
\<close>

theorem C6_number_digits_only:
  "(let p1 = pos l + run_len tokenDigits (input l) (pos l);
        v = take (p1 - start l) (drop (start l) (input l))
    in \<exists>l'. stateNumber l = Some (Some StateCode, l') \<and>
         tokens l' = tokens l @ [\<lparr>Typ = TokenNumber, Val = v, Line = startline l, Col = startcol l\<rparr>] \<and>
         start l' = p1 \<and> pos l' = p1) \<and>
   lex fmt_q nm ''{{ 4.2 }}'' =
     Some (Inr [\<lparr>Typ = TokenSymbol, Val = ''{{'', Line = 1, Col = 1\<rparr>,
                \<lparr>Typ = TokenNumber, Val = ''4'', Line = 1, Col = 3\<rparr>,
                \<lparr>Typ = TokenSymbol, Val = ''.'', Line = 1, Col = 5\<rparr>,
                \<lparr>Typ = TokenNumber, Val = ''2'', Line = 1, Col = 6\<rparr>,
                \<lparr>Typ = TokenSymbol, Val = ''}}'', Line = 1, Col = 7\<rparr>])"
proof -
  have "lex fmt_q nm ''{{ 4.2 }}'' =
     Some (Inr [\<lparr>Typ = TokenSymbol, Val = ''{{'', Line = 1, Col = 1\<rparr>,
                \<lparr>Typ = TokenNumber, Val = ''4'', Line = 1, Col = 3\<rparr>,
                \<lparr>Typ = TokenSymbol, Val = ''.'', Line = 1, Col = 5\<rparr>,
                \<lparr>Typ = TokenNumber, Val = ''2'', Line = 1, Col = 6\<rparr>,
                \<lparr>Typ = TokenSymbol, Val = ''}}'', Line = 1, Col = 7\<rparr>])"
    by code_simp
  then show ?thesis
    by (simp add: stateNumber_eq Let_def emit_def l_value_def)
qed

theorem C6_number_digits_only_witness:
  "\<exists>l'. stateNumber
      \<lparr>name = ''page'', input = ''{{ 42.5 }}'', start = 3, pos = 4, width = 1, tokens = [],
       errored = False, startline = 1, startcol = 3, line = 1, col = 4\<rparr> =
        Some (Some StateCode, l') \<and>
     tokens l' = [\<lparr>Typ = TokenNumber, Val = ''42'', Line = 1, Col = 3\<rparr>] \<and>
     start l' = 5 \<and> pos l' = 5"
  using C6_number_digits_only
    [of "\<lparr>name = ''page'', input = ''{{ 42.5 }}'', start = 3, pos = 4, width = 1, tokens = [],
          errored = False, startline = 1, startcol = 3, line = 1, col = 4\<rparr>" quote_ascii "''page''"]
  by (simp add: Let_def run_len_def tokenDigits_def)

text \<open>
  C7: when the input ends inside a string literal, with no closing double quote left, the
  scan returns one error whose message ends with "string not closed", and no tokens. In
  every state, \<open>stateString\<close> entered with no double quote ahead appends the error token
  and returns \<open>nil\<close>, which ends \<open>tokenize\<close>; in every state at the dispatch point of
  \<open>stateCode\<close>, in a \<open>{{\<close> or a \<open>{%\<close> tag and after any tokens, a double quote that follows
  any blanks and has no double quote after it ends \<open>tokenize\<close> with that error token. When
  \<open>tokenize\<close> returns with \<open>errored\<close> set, \<open>run\<close> returns at once; when \<open>run\<close> ends with
  \<open>errored\<close> set, \<open>lex\<close> returns the error made from the last token, and no tokens. For \<open>lex\<close>: a text without \<open>{\<close>, then \<open>{{\<close> or \<open>{%\<close>, blanks and a string literal
  that is not closed is that error; \<open>{{ "abc }}\<close> is the instance at line 1, column 3, and
  \<open>x{% a "bc\<close>, where an identifier stands before the literal, is that error as well.
\<close>

theorem C7_unclosed_string:
  "(CHR 0x22 \<notin> set (drop (pos l) (input l)) \<longrightarrow>
      (\<exists>l'. stateString l = (None, l') \<and> tokenize_loop fmt_q StateString l = Some l' \<and>
         errored l' \<and>
         tokens l' = tokens l @
           [\<lparr>Typ = TokenError, Val = ''Unexpected EOF, string not closed.'',
             Line = startline l, Col = startcol l\<rparr>])) \<and>
   (start l = pos l \<and> drop (pos l) (input l) = bl @ CHR 0x22 # body \<and>
    set bl \<subseteq> set tokenSpaceChars \<and> CHR 0x22 \<notin> set body \<longrightarrow>
      (\<exists>l'. tokenize fmt_q l = Some l' \<and> errored l' \<and>
         tokens l' = tokens l @
           [\<lparr>Typ = TokenError, Val = ''Unexpected EOF, string not closed.'',
             Line = startline l, Col = startcol l\<rparr>])) \<and>
   ((HasPrefix (drop (pos l) (input l)) ''{{'' \<or> HasPrefix (drop (pos l) (input l)) ''{%'') \<and>
    tokenize fmt_q (if pos l > start l then emit TokenHTML l else l) = Some lr \<and> errored lr \<longrightarrow>
      run fmt_q l = Some lr) \<and>
   (run fmt_q (lexer_init nm inp) = Some lr \<and> errored lr \<and>
    tokens lr = ts @ [\<lparr>Typ = TokenError, Val = msg, Line = ln, Col = cl\<rparr>] \<longrightarrow>
      lex fmt_q nm inp =
        Some (Inl (''[Lexer Error in '' @ nm @ '' (Line '' @ fmt_d (int ln) @ '' Col ''
                   @ fmt_d (int cl) @ '')]: '' @ msg))) \<and>
   ((\<forall>c \<in> set htm. c \<noteq> CHR ''{'' \<and> c \<noteq> CHR 0x01) \<and> (opn = ''{{'' \<or> opn = ''{%'') \<and>
    set bl \<subseteq> set tokenSpaceChars \<and> CHR 0x22 \<notin> set body \<longrightarrow>
      (\<exists>ln' cl'. lex fmt_q nm (htm @ opn @ bl @ CHR 0x22 # body) =
         Some (Inl (''[Lexer Error in '' @ nm @ '' (Line '' @ fmt_d (int ln') @ '' Col ''
                    @ fmt_d (int cl') @ '')]: Unexpected EOF, string not closed.'')))) \<and>
   (CHR 0x22 \<notin> set body \<longrightarrow>
      lex fmt_q nm (CHR ''{'' # CHR ''{'' # CHR '' '' # CHR 0x22 # body) =
        Some (Inl (''[Lexer Error in '' @ nm
                   @ '' (Line 1 Col 3)]: Unexpected EOF, string not closed.''))) \<and>
   lex fmt_q nm (''x{% a '' @ CHR 0x22 # ''bc'') =
     Some (Inl (''[Lexer Error in '' @ nm
                @ '' (Line 1 Col 6)]: Unexpected EOF, string not closed.''))"
proof -
  have a: "lex fmt_q nm (CHR ''{'' # CHR ''{'' # CHR '' '' # CHR 0x22 # body) =
        Some (Inl (''[Lexer Error in '' @ nm
                   @ '' (Line 1 Col 3)]: Unexpected EOF, string not closed.''))"
    if "CHR 0x22 \<notin> set body"
  proof -
    have "CHR 0x22 \<notin> set (drop (pos (string_opened nm body)) (input (string_opened nm body)))"
      using that by (simp add: string_opened_def)
    from stateString_no_quote [OF this] show ?thesis
      using lex_string_opened by blast
  qed
  have b: "lex fmt_q nm (''x{% a '' @ CHR 0x22 # ''bc'') =
     Some (Inl (''[Lexer Error in '' @ nm
                @ '' (Line 1 Col 6)]: Unexpected EOF, string not closed.''))"
    by code_simp
  show ?thesis
    using tokenize_string_no_quote [of l fmt_q] tokenize_blanks_quote [of l bl body fmt_q]
      run_tokenize_error [of l fmt_q lr]
      lex_run_error [of fmt_q nm inp lr ts TokenError msg ln cl]
      lex_text_tag_string [of htm opn bl body fmt_q nm] a b
    by blast
qed

theorem C7_unclosed_string_witness:
  "lex quote_ascii ''page'' (CHR ''{'' # CHR ''{'' # CHR '' '' # CHR 0x22 # ''abc }}'') =
     Some (Inl ''[Lexer Error in page (Line 1 Col 3)]: Unexpected EOF, string not closed.'') \<and>
   (\<exists>ln' cl'. lex quote_ascii ''page'' (''<p>'' @ ''{%'' @ ''  '' @ CHR 0x22 # ''abc %}'') =
      Some (Inl (''[Lexer Error in '' @ ''page'' @ '' (Line '' @ fmt_d (int ln') @ '' Col ''
                 @ fmt_d (int cl') @ '')]: Unexpected EOF, string not closed.'')))"
  using C7_unclosed_string
    [where l = "lexer_init ''page'' []" and fmt_q = quote_ascii and nm = "''page''"
       and inp = "[]" and lr = "lexer_init ''page'' []" and ts = "[]" and msg = "[]"
       and ln = 0 and cl = 0
       and htm = "''<p>''" and opn = "''{%''" and bl = "''  ''" and body = "''abc }}''"]
    C7_unclosed_string
    [where l = "lexer_init ''page'' []" and fmt_q = quote_ascii and nm = "''page''"
       and inp = "[]" and lr = "lexer_init ''page'' []" and ts = "[]" and msg = "[]"
       and ln = 0 and cl = 0
       and htm = "''<p>''" and opn = "''{%''" and bl = "''  ''" and body = "''abc %}''"]
  by (simp add: tokenSpaceChars_def)



text \<open>
  C9: when the input is exhausted in code mode, \<open>stateCode\<close> returns \<open>nil\<close> without an error
  token, \<open>tokenize\<close> returns, and \<open>run\<close> ends at once: no token is added and \<open>errored\<close> is
  not set. The input \<open>{{ foo\<close> scans successfully to the two tokens emitted before the end.
\<close>

theorem C9_code_mode_end_of_input:
  "(start l = pos l \<and> pos l = length (input l) \<longrightarrow>
      stateCode fmt_q l = (None, l\<lparr>width := 0\<rparr>) \<and>
      tokenize fmt_q l = Some (l\<lparr>width := 0\<rparr>) \<and>
      run fmt_q (l\<lparr>width := 0\<rparr>) = Some (l\<lparr>width := 0, col := col l + 1\<rparr>)) \<and>
   lex fmt_q nm ''{{ foo'' =
     Some (Inr [\<lparr>Typ = TokenSymbol, Val = ''{{'', Line = 1, Col = 1\<rparr>,
                \<lparr>Typ = TokenIdentifier, Val = ''foo'', Line = 1, Col = 3\<rparr>])"
proof -
  have "lex fmt_q nm ''{{ foo'' =
     Some (Inr [\<lparr>Typ = TokenSymbol, Val = ''{{'', Line = 1, Col = 1\<rparr>,
                \<lparr>Typ = TokenIdentifier, Val = ''foo'', Line = 1, Col = 3\<rparr>])"
    by code_simp
  moreover have "run fmt_q (l\<lparr>width := 0\<rparr>) = Some (l\<lparr>width := 0, col := col l + 1\<rparr>)"
    if "start l = pos l" "pos l = length (input l)"
    using run_end [of "l\<lparr>width := 0\<rparr>" fmt_q] that by simp
  ultimately show ?thesis
    using stateCode_end [of l fmt_q] tokenize_end [of l fmt_q] by blast
qed

theorem C9_code_mode_end_of_input_witness:
  "stateCode quote_ascii
      \<lparr>name = ''page'', input = ''{{ foo'', start = 6, pos = 6, width = 0,
       tokens = [], errored = False, startline = 1, startcol = 7, line = 1, col = 7\<rparr> =
     (None, \<lparr>name = ''page'', input = ''{{ foo'', start = 6, pos = 6, width = 0,
       tokens = [], errored = False, startline = 1, startcol = 7, line = 1, col = 7\<rparr>) \<and>
   lex quote_ascii ''page'' ''{{ foo'' =
     Some (Inr [\<lparr>Typ = TokenSymbol, Val = ''{{'', Line = 1, Col = 1\<rparr>,
                \<lparr>Typ = TokenIdentifier, Val = ''foo'', Line = 1, Col = 3\<rparr>])"
  using C9_code_mode_end_of_input
    [of "\<lparr>name = ''page'', input = ''{{ foo'', start = 6, pos = 6, width = 0,
          tokens = [], errored = False, startline = 1, startcol = 7, line = 1, col = 7\<rparr>"
        quote_ascii "''page''"]
  by simp

text \<open>
  C10: the byte 1 is the value of \<open>EOF\<close>. When \<open>run\<close> is in text mode and the input has a
  byte 1 at offset \<open>k\<close>, with no \<open>{\<close> before it, \<open>run\<close> consumes it, leaves the loop as at
  the end of the input and emits the pending text up to and including that byte: no
  later character reaches a token, and no error is raised. When the loop of
  \<open>stateString\<close> has a byte 1 ahead and no double quote before it, the "string not
  closed" error is raised, whatever follows. For \<open>lex\<close>: a text without \<open>{\<close> followed by a
  byte 1 scans to one HTML token that ends with that byte, and a string literal with a
  byte 1 before its closing quote is an error.
\<close>

theorem C10_byte_one_is_EOF:
  "(k < length (input l) \<and> input l ! k = CHR 0x01 \<and> pos l \<le> k \<and> start l \<le> pos l \<and>
    (\<forall>i. pos l \<le> i \<and> i < k \<longrightarrow> input l ! i \<noteq> CHR ''{'' \<and> input l ! i \<noteq> CHR 0x01) \<longrightarrow>
      (\<exists>l'. run fmt_q l = Some l' \<and> errored l' = errored l \<and>
         tokens l' = tokens l @
           [\<lparr>Typ = TokenHTML, Val = take (Suc k - start l) (drop (start l) (input l)),
             Line = startline l, Col = startcol l\<rparr>])) \<and>
   (k < length (input l) \<and> input l ! k = CHR 0x01 \<and> pos l \<le> k \<and>
    (\<forall>i. pos l \<le> i \<and> i < k \<longrightarrow> input l ! i \<noteq> CHR 0x22) \<longrightarrow>
      (\<exists>l'. string_loop l = (False, l') \<and> errored l' \<and>
         tokens l' = tokens l @
           [\<lparr>Typ = TokenError, Val = ''Unexpected EOF, string not closed.'',
             Line = startline l, Col = startcol l\<rparr>])) \<and>
   ((\<forall>c \<in> set pre. c \<noteq> CHR ''{'' \<and> c \<noteq> CHR 0x01) \<longrightarrow>
      lex fmt_q nm (pre @ CHR 0x01 # post) =
        Some (Inr [\<lparr>Typ = TokenHTML, Val = pre @ [CHR 0x01], Line = 1, Col = 1\<rparr>])) \<and>
   (CHR 0x22 \<notin> set body \<longrightarrow>
      lex fmt_q nm (CHR ''{'' # CHR ''{'' # CHR '' '' # CHR 0x22 # body @ CHR 0x01 # post) =
        Some (Inl (''[Lexer Error in '' @ nm
                   @ '' (Line 1 Col 3)]: Unexpected EOF, string not closed.'')))"
proof -
  have "lex fmt_q nm (CHR ''{'' # CHR ''{'' # CHR '' '' # CHR 0x22 # body @ CHR 0x01 # post) =
        Some (Inl (''[Lexer Error in '' @ nm
                   @ '' (Line 1 Col 3)]: Unexpected EOF, string not closed.''))"
    if "CHR 0x22 \<notin> set body"
  proof -
    let ?l = "string_opened nm (body @ CHR 0x01 # post)"
    have "\<forall>i. pos ?l \<le> i \<and> i < 4 + length body \<longrightarrow> input ?l ! i \<noteq> CHR 0x22"
    proof (intro allI impI)
      fix i
      assume a: "pos ?l \<le> i \<and> i < 4 + length body"
      then obtain j where j: "i = 4 + j" "j < length body"
        by (metis add.commute add_diff_inverse_nat le_add_diff_inverse nat_add_left_cancel_less
            not_le string_opened_def lexer.select_convs(4))
      then have "input ?l ! i = body ! j"
        by (simp add: string_opened_def nth_append)
      with that j(2) show "input ?l ! i \<noteq> CHR 0x22"
        by (metis nth_mem)
    qed
    with stateString_byte1_at [of "4 + length body" ?l]
    have "\<exists>l'. stateString ?l = (None, l') \<and> errored l' \<and>
     tokens l' = tokens ?l @ [\<lparr>Typ = TokenError, Val = ''Unexpected EOF, string not closed.'',
                               Line = startline ?l, Col = startcol ?l\<rparr>]"
      by (simp add: string_opened_def nth_append)
    then show ?thesis
      using lex_string_opened [of nm "body @ CHR 0x01 # post"] by auto
  qed
  then show ?thesis
    using run_byte1_at [of k l fmt_q] string_loop_byte1_at [of k l]
      lex_pure_text_byte1 [of pre fmt_q nm post]
    by blast
qed

theorem C10_byte_one_is_EOF_witness:
  "lex quote_ascii ''page'' (''ab'' @ CHR 0x01 # ''cd{{ x }}'') =
     Some (Inr [\<lparr>Typ = TokenHTML, Val = ''ab'' @ [CHR 0x01], Line = 1, Col = 1\<rparr>]) \<and>
   lex quote_ascii ''page''
       (CHR ''{'' # CHR ''{'' # CHR '' '' # CHR 0x22 # ''a'' @ CHR 0x01 # CHR ''b'' # CHR 0x22 # '' }}'') =
     Some (Inl ''[Lexer Error in page (Line 1 Col 3)]: Unexpected EOF, string not closed.'')"
  using C10_byte_one_is_EOF
    [where k = 0 and l = "lexer_init ''page'' [CHR 0x01]" and fmt_q = quote_ascii
       and nm = "''page''" and pre = "''ab''" and post = "''cd{{ x }}''" and body = "''a''"]
    C10_byte_one_is_EOF
    [where k = 0 and l = "lexer_init ''page'' [CHR 0x01]" and fmt_q = quote_ascii
       and nm = "''page''" and pre = "''ab''" and post = "CHR ''b'' # CHR 0x22 # '' }}''"
       and body = "''a''"]
  by simp

end
